theory Spec2Isabelle
  imports Main "HOL-Library.Char_ord"
begin

section \<open>Regular expressions as used by the pattern table\<close>

text \<open>
  The four entries of \<open>self.patterns\<close> in \<open>src/main.py\<close> are written with a small
  fragment of Python's \<open>re\<close> syntax: literals, character classes, concatenation,
  alternation, greedy \<open>?\<close>, lazy \<open>??\<close>, counted repetition \<open>{n}\<close>, and
  \<open>*\<close>, \<open>+\<close>, \<open>{n,}\<close> applied to a single character class. Groups carry no
  back-references, so capturing and non-capturing groups are plain nesting.

  Text is a \<open>string\<close>, a list of 8-bit characters (code points 0 to 255).
\<close>

datatype citem = Digit | Space | Range char char | Single char

fun citem_mem :: "char \<Rightarrow> citem \<Rightarrow> bool" where
  "citem_mem c Digit = (CHR ''0'' \<le> c \<and> c \<le> CHR ''9'')"
| "citem_mem c Space =
     (let n = (of_char c :: nat)
      in (9 \<le> n \<and> n \<le> 13) \<or> (28 \<le> n \<and> n \<le> 32) \<or> n = 133 \<or> n = 160)"
| "citem_mem c (Range lo hi) = (lo \<le> c \<and> c \<le> hi)"
| "citem_mem c (Single d) = (c = d)"

definition in_class :: "char \<Rightarrow> citem list \<Rightarrow> bool" where
  "in_class c cs = list_ex (citem_mem c) cs"

datatype regex =
    Eps
  | Lit char
  | Cls "citem list"
  | Seq regex regex
  | Alt regex regex
  | Opt regex
  | OptLazy regex
  | Times nat regex
  | StarCls "citem list"

text \<open>
  \<open>matches r s\<close> lists, in the priority order of a backtracking matcher, the
  remainders of \<open>s\<close> after each way \<open>r\<close> can match a prefix of \<open>s\<close>. The head of
  the list is the match Python's engine reports at that position.
\<close>

fun star_cls :: "citem list \<Rightarrow> string \<Rightarrow> string list" where
  "star_cls cs [] = [[]]"
| "star_cls cs (x # xs) = (if in_class x cs then star_cls cs xs @ [x # xs] else [x # xs])"

primrec matches :: "regex \<Rightarrow> string \<Rightarrow> string list" where
  "matches Eps s = [s]"
| "matches (Lit c) s = (case s of [] \<Rightarrow> [] | x # xs \<Rightarrow> if x = c then [xs] else [])"
| "matches (Cls cs) s = (case s of [] \<Rightarrow> [] | x # xs \<Rightarrow> if in_class x cs then [xs] else [])"
| "matches (Seq a b) s = concat (map (matches b) (matches a s))"
| "matches (Alt a b) s = matches a s @ matches b s"
| "matches (Opt a) s = matches a s @ [s]"
| "matches (OptLazy a) s = s # matches a s"
| "matches (Times n a) s = ((\<lambda>ss. concat (map (matches a) ss)) ^^ n) [s]"
| "matches (StarCls cs) s = star_cls cs s"

fun seqs :: "regex list \<Rightarrow> regex" where
  "seqs [] = Eps"
| "seqs [r] = r"
| "seqs (r # rs) = Seq r (seqs rs)"

definition lits :: "string \<Rightarrow> regex" where
  "lits s = seqs (map Lit s)"

definition plus_cls :: "citem list \<Rightarrow> regex" where
  "plus_cls cs = Seq (Cls cs) (StarCls cs)"

definition at_least :: "nat \<Rightarrow> citem list \<Rightarrow> regex" where
  "at_least n cs = Seq (Times n (Cls cs)) (StarCls cs)"

definition accepts :: "regex \<Rightarrow> string \<Rightarrow> bool" where
  "accepts r m = ([] \<in> set (matches r m))"

subsection \<open>The pattern table\<close>

definition digit :: regex where
  "digit = Cls [Digit]"

definition d09 :: regex where
  "d09 = Cls [Range (CHR ''0'') (CHR ''9'')]"

definition sep :: regex where
  "sep = Cls [Single (CHR ''-''), Single (CHR ''.''), Space]"

text \<open>
  \<open>(\d{3}[-\.\s]??\d{3}[-\.\s]??\d{4}|\(\d{3}\)\s*\d{3}[-\.\s]??\d{4}|\d{3}[-\.\s]??\d{4})\<close>
\<close>

definition phone_number_re :: regex where
  "phone_number_re =
     Alt (seqs [Times 3 digit, OptLazy sep, Times 3 digit, OptLazy sep, Times 4 digit])
    (Alt (seqs [Lit (CHR ''(''), Times 3 digit, Lit (CHR '')''), StarCls [Space],
                Times 3 digit, OptLazy sep, Times 4 digit])
         (seqs [Times 3 digit, OptLazy sep, Times 4 digit]))"

text \<open>
  \<open>(?:4[0-9]{12}(?:[0-9]{3})?|5[1-5][0-9]{14}|6(?:011|5[0-9]{2})[0-9]{12}|3[47][0-9]{13}|3(?:0[0-5]|[68][0-9])[0-9]{11}|(?:2131|1800|35\d{3})\d{11})\<close>
\<close>

definition credit_card_re :: regex where
  "credit_card_re =
     Alt (seqs [Lit (CHR ''4''), Times 12 d09, Opt (Times 3 d09)])
    (Alt (seqs [Lit (CHR ''5''), Cls [Range (CHR ''1'') (CHR ''5'')], Times 14 d09])
    (Alt (seqs [Lit (CHR ''6''), Alt (lits ''011'') (Seq (Lit (CHR ''5'')) (Times 2 d09)),
                Times 12 d09])
    (Alt (seqs [Lit (CHR ''3''), Cls [Single (CHR ''4''), Single (CHR ''7'')], Times 13 d09])
    (Alt (seqs [Lit (CHR ''3''),
                Alt (Seq (Lit (CHR ''0'')) (Cls [Range (CHR ''0'') (CHR ''5'')]))
                    (Seq (Cls [Single (CHR ''6''), Single (CHR ''8'')]) d09),
                Times 11 d09])
         (seqs [Alt (lits ''2131'') (Alt (lits ''1800'') (Seq (lits ''35'') (Times 3 digit))),
                Times 11 digit])))))"

text \<open>\<open>[a-zA-Z0-9._%+-]+@[a-zA-Z0-9.-]+\.[a-zA-Z]{2,}\<close>\<close>

definition email_re :: regex where
  "email_re =
     seqs [plus_cls [Range (CHR ''a'') (CHR ''z''), Range (CHR ''A'') (CHR ''Z''),
                     Range (CHR ''0'') (CHR ''9''), Single (CHR ''.''), Single (CHR ''_''),
                     Single (CHR ''%''), Single (CHR ''+''), Single (CHR ''-'')],
           Lit (CHR ''@''),
           plus_cls [Range (CHR ''a'') (CHR ''z''), Range (CHR ''A'') (CHR ''Z''),
                     Range (CHR ''0'') (CHR ''9''), Single (CHR ''.''), Single (CHR ''-'')],
           Lit (CHR ''.''),
           at_least 2 [Range (CHR ''a'') (CHR ''z''), Range (CHR ''A'') (CHR ''Z'')]]"

text \<open>
  \<open>((25[0-5]|2[0-4][0-9]|[01]?[0-9][0-9]?)\.){3}(25[0-5]|2[0-4][0-9]|[01]?[0-9][0-9]?)\<close>
\<close>

definition octet :: regex where
  "octet =
     Alt (Seq (lits ''25'') (Cls [Range (CHR ''0'') (CHR ''5'')]))
    (Alt (seqs [Lit (CHR ''2''), Cls [Range (CHR ''0'') (CHR ''4'')], d09])
         (seqs [Opt (Cls [Single (CHR ''0''), Single (CHR ''1'')]), d09, Opt d09]))"

definition ip_address_re :: regex where
  "ip_address_re = Seq (Times 3 (Seq octet (Lit (CHR ''.'')))) octet"

text \<open>
  \<open>self.patterns\<close>: a dict, so an association list in insertion order, which is the
  order \<open>self.patterns.keys()\<close> iterates in.
\<close>

definition patterns :: "(string \<times> regex) list" where
  "patterns =
     [(''phone_number'', phone_number_re),
      (''credit_card'', credit_card_re),
      (''email'', email_re),
      (''ip_address'', ip_address_re)]"

section \<open>\<open>re.sub\<close> with a replacement function\<close>

text \<open>
  \<open>re.sub(pattern, repl, text)\<close> scans \<open>text\<close> from the left. At each position it
  takes the first match in priority order; after an empty match the next search
  starts at the same position but must advance. The scan cuts the text into kept
  characters and matched spans (\<open>finditer\<close>); the replacement function is then
  called on each matched span, left to right (\<open>subst\<close>). An exception of the
  replacement function ends the substitution and is passed on.

  In \<open>finditer\<close>, a search that must advance only returns shorter remainders, so
  the branch for an empty match while \<open>must_advance\<close> holds is never taken.
\<close>

datatype seg = Keep char | Hit string

definition first_match :: "regex \<Rightarrow> bool \<Rightarrow> string \<Rightarrow> string option" where
  "first_match r must_advance s =
     (case filter (\<lambda>t. if must_advance then length t < length s else True) (matches r s) of
        [] \<Rightarrow> None
      | t # _ \<Rightarrow> Some t)"

function finditer :: "regex \<Rightarrow> bool \<Rightarrow> string \<Rightarrow> seg list" where
  "finditer r must_advance s =
     (case first_match r must_advance s of
        None \<Rightarrow> (case s of [] \<Rightarrow> [] | c # cs \<Rightarrow> Keep c # finditer r False cs)
      | Some t \<Rightarrow>
          if length t < length s
          then Hit (take (length s - length t) s) # finditer r False t
          else if must_advance then []
          else Hit [] # finditer r True s)"
  by pat_completeness auto
termination
  by (relation "measure (\<lambda>(r, ma, s). 2 * length s + (if ma then 0 else 1))") auto

declare finditer.simps [simp del]

datatype exn = ReError string | Exception string

datatype log_entry =
    UnknownPattern string
  | NoFakerMethod string
  | GenerationError string exn
  | RegexError exn

type_synonym 'g outcome = "(exn + string) \<times> 'g \<times> log_entry list"

fun subst :: "(string \<Rightarrow> 'g \<Rightarrow> 'g outcome) \<Rightarrow> seg list \<Rightarrow> 'g \<Rightarrow> 'g outcome" where
  "subst f [] g = (Inr [], g, [])"
| "subst f (Keep c # segs) g =
     (case subst f segs g of
        (Inl e, g', lg) \<Rightarrow> (Inl e, g', lg)
      | (Inr out, g', lg) \<Rightarrow> (Inr (c # out), g', lg))"
| "subst f (Hit m # segs) g =
     (case f m g of
        (Inl e, g1, l1) \<Rightarrow> (Inl e, g1, l1)
      | (Inr v, g1, l1) \<Rightarrow>
          (case subst f segs g1 of
             (Inl e, g2, l2) \<Rightarrow> (Inl e, g2, l1 @ l2)
           | (Inr out, g2, l2) \<Rightarrow> (Inr (v @ out), g2, l1 @ l2)))"

definition re_sub :: "regex \<Rightarrow> (string \<Rightarrow> 'g \<Rightarrow> 'g outcome) \<Rightarrow> string \<Rightarrow> 'g \<Rightarrow> 'g outcome" where
  "re_sub pattern repl text g = subst repl (finditer pattern False text) g"

section \<open>The scrambler\<close>

text \<open>
  The Faker instance is an external collaborator. Each of the four methods the
  scrambler calls takes the provider's state and either returns a string or raises,
  and leaves a new state.
\<close>

record 'g faker =
  phone_number :: "'g \<Rightarrow> (exn + string) \<times> 'g"
  credit_card_number :: "'g \<Rightarrow> (exn + string) \<times> 'g"
  email :: "'g \<Rightarrow> (exn + string) \<times> 'g"
  ipv4 :: "'g \<Rightarrow> (exn + string) \<times> 'g"

text \<open>The \<open>try\<close>/\<open>except Exception\<close> of \<open>generate_fake_value\<close>.\<close>

fun catch_generation :: "string \<Rightarrow> string \<Rightarrow> (exn + string) \<times> 'g \<Rightarrow> 'g outcome" where
  "catch_generation pattern_name m (Inr v, g') = (Inr v, g', [])"
| "catch_generation pattern_name m (Inl e, g') = (Inr m, g', [GenerationError pattern_name e])"

definition generate_fake_value :: "'g faker \<Rightarrow> string \<Rightarrow> string \<Rightarrow> 'g \<Rightarrow> 'g outcome" where
  "generate_fake_value fk pattern_name m g =
     (if pattern_name = ''phone_number'' then catch_generation pattern_name m (phone_number fk g)
      else if pattern_name = ''credit_card'' then catch_generation pattern_name m (credit_card_number fk g)
      else if pattern_name = ''email'' then catch_generation pattern_name m (email fk g)
      else if pattern_name = ''ip_address'' then catch_generation pattern_name m (ipv4 fk g)
      else (Inr m, g, [NoFakerMethod pattern_name]))"

text \<open>
  \<open>replace_pattern\<close>: the patterns are given compiled, so \<open>re.sub\<close> itself cannot
  raise \<open>re.error\<close> here; the handler still catches one that the replacement
  function lets through, and returns the text it was given.
\<close>

definition replace_pattern :: "'g faker \<Rightarrow> string \<Rightarrow> regex \<Rightarrow> string \<Rightarrow> 'g \<Rightarrow> 'g outcome" where
  "replace_pattern fk text pattern pattern_name g =
     (case re_sub pattern (generate_fake_value fk pattern_name) text g of
        (Inl (ReError msg), g', lg) \<Rightarrow> (Inr text, g', lg @ [RegexError (ReError msg)])
      | (Inl (Exception msg), g', lg) \<Rightarrow> (Inl (Exception msg), g', lg)
      | (Inr out, g', lg) \<Rightarrow> (Inr out, g', lg))"

fun scramble_loop :: "'g faker \<Rightarrow> string list \<Rightarrow> string \<Rightarrow> 'g \<Rightarrow> 'g outcome" where
  "scramble_loop fk [] text g = (Inr text, g, [])"
| "scramble_loop fk (pattern_name # rest) text g =
     (case map_of patterns pattern_name of
        None \<Rightarrow>
          (case scramble_loop fk rest text g of
             (res, g', lg) \<Rightarrow> (res, g', UnknownPattern pattern_name # lg))
      | Some pattern \<Rightarrow>
          (case replace_pattern fk text pattern pattern_name g of
             (Inl e, g1, l1) \<Rightarrow> (Inl e, g1, l1)
           | (Inr text1, g1, l1) \<Rightarrow>
               (case scramble_loop fk rest text1 g1 of
                  (res, g2, l2) \<Rightarrow> (res, g2, l1 @ l2))))"

definition scramble_text :: "'g faker \<Rightarrow> string \<Rightarrow> string list option \<Rightarrow> 'g \<Rightarrow> 'g outcome" where
  "scramble_text fk text pattern_names g =
     scramble_loop fk (case pattern_names of None \<Rightarrow> map fst patterns | Some ns \<Rightarrow> ns) text g"

subsection \<open>Test providers\<close>

text \<open>A provider whose four methods always return the given strings.\<close>

definition const_faker :: "string \<Rightarrow> string \<Rightarrow> string \<Rightarrow> string \<Rightarrow> unit faker" where
  "const_faker p c e i =
     \<lparr>phone_number = (\<lambda>g. (Inr p, g)),
      credit_card_number = (\<lambda>g. (Inr c, g)),
      email = (\<lambda>g. (Inr e, g)),
      ipv4 = (\<lambda>g. (Inr i, g))\<rparr>"

text \<open>A provider all of whose methods raise.\<close>

definition failing_faker :: "unit faker" where
  "failing_faker =
     \<lparr>phone_number = (\<lambda>g. (Inl (Exception ''phone''), g)),
      credit_card_number = (\<lambda>g. (Inl (Exception ''card''), g)),
      email = (\<lambda>g. (Inl (Exception ''email''), g)),
      ipv4 = (\<lambda>g. (Inl (Exception ''ipv4''), g))\<rparr>"

subsection \<open>Reading a scan\<close>

text \<open>The piece of the input text a segment stands for.\<close>

fun seg_src :: "seg \<Rightarrow> string" where
  "seg_src (Keep c) = [c]"
| "seg_src (Hit m) = m"

text \<open>\<open>re.search(r, s) is not None\<close>: some position of \<open>s\<close> has a match.\<close>

fun re_search :: "regex \<Rightarrow> string \<Rightarrow> bool" where
  "re_search r [] = (matches r [] \<noteq> [])"
| "re_search r (c # cs) = (if matches r (c # cs) \<noteq> [] then True else re_search r cs)"

text \<open>
  \<open>fill segs vs\<close> writes a scan out again, every kept character as it is and the
  matched spans replaced, left to right, by the strings \<open>vs\<close>.
\<close>

fun is_hit :: "seg \<Rightarrow> bool" where
  "is_hit (Hit m) = True"
| "is_hit (Keep c) = False"

fun fill :: "seg list \<Rightarrow> string list \<Rightarrow> string" where
  "fill [] vs = []"
| "fill (Keep c # segs) vs = c # fill segs vs"
| "fill (Hit m # segs) [] = m @ fill segs []"
| "fill (Hit m # segs) (v # vs) = v @ fill segs vs"

text \<open>The log entries written for an unknown pattern name.\<close>

fun is_unknown_warning :: "log_entry \<Rightarrow> bool" where
  "is_unknown_warning (UnknownPattern n) = True"
| "is_unknown_warning (NoFakerMethod n) = False"
| "is_unknown_warning (GenerationError n e) = False"
| "is_unknown_warning (RegexError e) = False"

text \<open>
  A provider whose \<open>phone_number\<close> raises on its first call and returns \<open>X\<close>
  afterwards; its state counts the calls.
\<close>

definition flaky_faker :: "nat faker" where
  "flaky_faker =
     \<lparr>phone_number = (\<lambda>g. (if g = 0 then Inl (Exception ''boom'') else Inr ''X'', Suc g)),
      credit_card_number = (\<lambda>g. (Inr ''C'', Suc g)),
      email = (\<lambda>g. (Inr ''E'', Suc g)),
      ipv4 = (\<lambda>g. (Inr ''I'', Suc g))\<rparr>"

text \<open>
  What the table of the specification calls an octet in the range 0 to 255: one to
  three decimal digits whose value is at most 255.
\<close>

definition digit_val :: "char \<Rightarrow> nat" where
  "digit_val c = of_char c - 48"

definition decimal :: "string \<Rightarrow> nat" where
  "decimal s = foldl (\<lambda>n c. 10 * n + digit_val c) 0 s"

definition octet_ok :: "string \<Rightarrow> bool" where
  "octet_ok a = (a \<noteq> [] \<and> length a \<le> 3 \<and> list_all (\<lambda>c. citem_mem c Digit) a \<and> decimal a \<le> 255)"

text \<open>
  The chain of replacement passes over a list of names with their patterns, each pass
  on the text and provider state the one before it returned; \<open>known_passes\<close> pairs
  the names of a list that are keys of the pattern table with their patterns, in the
  order of the list.
\<close>

fun run_passes :: "'g faker \<Rightarrow> (string \<times> regex) list \<Rightarrow> string \<Rightarrow> 'g \<Rightarrow> 'g outcome" where
  "run_passes fk [] text g = (Inr text, g, [])"
| "run_passes fk ((n, r) # rest) text g =
     (case replace_pattern fk text r n g of
        (Inl e, g1, l1) \<Rightarrow> (Inl e, g1, l1)
      | (Inr text1, g1, l1) \<Rightarrow>
          (case run_passes fk rest text1 g1 of
             (res, g2, l2) \<Rightarrow> (res, g2, l1 @ l2)))"

definition known_passes :: "string list \<Rightarrow> (string \<times> regex) list" where
  "known_passes C =
     concat (map (\<lambda>n. case map_of patterns n of None \<Rightarrow> [] | Some r \<Rightarrow> [(n, r)]) C)"

text \<open>A character at which no phone number can start: neither a digit nor \<open>(\<close>.\<close>

definition no_start :: "char \<Rightarrow> bool" where
  "no_start c = (if citem_mem c Digit then False else c \<noteq> CHR ''('')"

section \<open>Properties of the matcher\<close>

lemma star_cls_self: "s \<in> set (star_cls cs s)"
  by (induction s) auto

lemma star_cls_suffix: "t \<in> set (star_cls cs s) \<Longrightarrow> \<exists>m. s = m @ t"
proof (induction s)
  case Nil then show ?case by simp
next
  case (Cons x xs)
  show ?case
  proof (cases "t = x # xs")
    case True
    then have "x # xs = [] @ t" by simp
    then show ?thesis by blast
  next
    case False
    with Cons.prems have "t \<in> set (star_cls cs xs)" by (simp split: if_splits)
    from Cons.IH[OF this] obtain m where "xs = m @ t" by blast
    then have "x # xs = (x # m) @ t" by simp
    then show ?thesis by blast
  qed
qed

lemma matches_suffix: "t \<in> set (matches r s) \<Longrightarrow> \<exists>m. s = m @ t"
proof (induction r arbitrary: s t)
  case (Times n a)
  from Times.prems show ?case
  proof (induction n arbitrary: t)
    case 0 then show ?case by simp
  next
    case (Suc n)
    from Suc.prems obtain u where u: "u \<in> set (matches (Times n a) s)" and t: "t \<in> set (matches a u)"
      by auto
    from Suc.IH[OF u] obtain m1 where "s = m1 @ u" by blast
    moreover from Times.IH[OF t] obtain m2 where "u = m2 @ t" by blast
    ultimately have "s = (m1 @ m2) @ t" by simp
    then show ?case by blast
  qed
next
  case (Seq a b)
  from Seq.prems obtain u where u: "u \<in> set (matches a s)" and t: "t \<in> set (matches b u)" by auto
  from Seq.IH(1)[OF u] obtain m1 where "s = m1 @ u" by blast
  moreover from Seq.IH(2)[OF t] obtain m2 where "u = m2 @ t" by blast
  ultimately have "s = (m1 @ m2) @ t" by simp
  then show ?case by blast
next
  case (StarCls cs) then show ?case by (simp add: star_cls_suffix)
next
  case (Lit c) then show ?case by (cases s) (auto split: if_splits)
next
  case (Cls cs) then show ?case by (cases s) (auto split: if_splits)
qed (auto)

lemma star_cls_extend: "t \<in> set (star_cls cs s) \<Longrightarrow> t @ u \<in> set (star_cls cs (s @ u))"
proof (induction s)
  case Nil then show ?case by (simp add: star_cls_self)
next
  case (Cons x xs)
  then show ?case by (auto split: if_splits)
qed

lemma star_cls_accepts: "t \<in> set (star_cls cs s) \<Longrightarrow> \<exists>m. s = m @ t \<and> [] \<in> set (star_cls cs m)"
proof (induction s)
  case Nil then show ?case by simp
next
  case (Cons x xs)
  show ?case
  proof (cases "t = x # xs")
    case True
    then have "x # xs = [] @ t \<and> [] \<in> set (star_cls cs [])" by simp
    then show ?thesis by blast
  next
    case False
    with Cons.prems have inx: "in_class x cs" and "t \<in> set (star_cls cs xs)" by (auto split: if_splits)
    from Cons.IH[OF this(2)] obtain m where m: "xs = m @ t" "[] \<in> set (star_cls cs m)" by blast
    then have "x # xs = (x # m) @ t \<and> [] \<in> set (star_cls cs (x # m))" using inx by simp
    then show ?thesis by blast
  qed
qed

lemma matches_extend: "t \<in> set (matches r s) \<Longrightarrow> t @ u \<in> set (matches r (s @ u))"
proof (induction r arbitrary: s t)
  case (Times n a)
  from Times.prems show ?case
  proof (induction n arbitrary: t)
    case 0 then show ?case by simp
  next
    case (Suc n)
    from Suc.prems obtain v where v: "v \<in> set (matches (Times n a) s)" and t: "t \<in> set (matches a v)"
      by auto
    from Suc.IH[OF v] have "v @ u \<in> set (matches (Times n a) (s @ u))" .
    moreover from Times.IH[OF t] have "t @ u \<in> set (matches a (v @ u))" .
    ultimately show ?case by auto
  qed
next
  case (Seq a b)
  from Seq.prems obtain v where v: "v \<in> set (matches a s)" and t: "t \<in> set (matches b v)" by auto
  from Seq.IH(1)[OF v] have "v @ u \<in> set (matches a (s @ u))" .
  moreover from Seq.IH(2)[OF t] have "t @ u \<in> set (matches b (v @ u))" .
  ultimately show ?case by auto
next
  case (StarCls cs) then show ?case by (simp add: star_cls_extend)
next
  case (Lit c) then show ?case by (cases s) (auto split: if_splits)
next
  case (Cls cs) then show ?case by (cases s) (auto split: if_splits)
next
  case (Alt a b) then show ?case by auto
next
  case (Opt a) then show ?case by auto
next
  case (OptLazy a) then show ?case by auto
next
  case Eps then show ?case by simp
qed

lemma matches_accepts: "t \<in> set (matches r s) \<Longrightarrow> \<exists>m. s = m @ t \<and> [] \<in> set (matches r m)"
proof (induction r arbitrary: s t)
  case Eps
  then have "s = [] @ t \<and> [] \<in> set (matches Eps [])" by simp
  then show ?case by blast
next
  case (Lit c)
  then have "s = [c] @ t \<and> [] \<in> set (matches (Lit c) [c])" by (cases s) (auto split: if_splits)
  then show ?case by blast
next
  case (Cls cs)
  then obtain x where "s = [x] @ t \<and> [] \<in> set (matches (Cls cs) [x])" by (cases s) (auto split: if_splits)
  then show ?case by blast
next
  case (Seq a b)
  from Seq.prems obtain v where v: "v \<in> set (matches a s)" and t: "t \<in> set (matches b v)" by auto
  from Seq.IH(1)[OF v] obtain m1 where m1: "s = m1 @ v" "[] \<in> set (matches a m1)" by blast
  from Seq.IH(2)[OF t] obtain m2 where m2: "v = m2 @ t" "[] \<in> set (matches b m2)" by blast
  from matches_extend[OF m1(2), of m2] have "m2 \<in> set (matches a (m1 @ m2))" by simp
  with m2(2) have "[] \<in> set (matches (Seq a b) (m1 @ m2))" by auto
  moreover have "s = (m1 @ m2) @ t" using m1 m2 by simp
  ultimately show ?case by blast
next
  case (Alt a b)
  from Alt.prems have "t \<in> set (matches a s) \<or> t \<in> set (matches b s)" by auto
  then show ?case
  proof
    assume "t \<in> set (matches a s)"
    from Alt.IH(1)[OF this] obtain m where "s = m @ t" "[] \<in> set (matches a m)" by blast
    then have "s = m @ t \<and> [] \<in> set (matches (Alt a b) m)" by simp
    then show ?thesis by blast
  next
    assume "t \<in> set (matches b s)"
    from Alt.IH(2)[OF this] obtain m where "s = m @ t" "[] \<in> set (matches b m)" by blast
    then have "s = m @ t \<and> [] \<in> set (matches (Alt a b) m)" by simp
    then show ?thesis by blast
  qed
next
  case (Opt a)
  from Opt.prems have "t \<in> set (matches a s) \<or> t = s" by auto
  then show ?case
  proof
    assume "t \<in> set (matches a s)"
    from Opt.IH[OF this] obtain m where "s = m @ t" "[] \<in> set (matches a m)" by blast
    then have "s = m @ t \<and> [] \<in> set (matches (Opt a) m)" by simp
    then show ?thesis by blast
  next
    assume "t = s"
    then have "s = [] @ t \<and> [] \<in> set (matches (Opt a) [])" by simp
    then show ?thesis by blast
  qed
next
  case (OptLazy a)
  from OptLazy.prems have "t \<in> set (matches a s) \<or> t = s" by auto
  then show ?case
  proof
    assume "t \<in> set (matches a s)"
    from OptLazy.IH[OF this] obtain m where "s = m @ t" "[] \<in> set (matches a m)" by blast
    then have "s = m @ t \<and> [] \<in> set (matches (OptLazy a) m)" by simp
    then show ?thesis by blast
  next
    assume "t = s"
    then have "s = [] @ t \<and> [] \<in> set (matches (OptLazy a) [])" by simp
    then show ?thesis by blast
  qed
next
  case (Times n a)
  from Times.prems show ?case
  proof (induction n arbitrary: t)
    case 0
    then have "s = [] @ t \<and> [] \<in> set (matches (Times 0 a) [])" by simp
    then show ?case by blast
  next
    case (Suc n)
    from Suc.prems obtain v where v: "v \<in> set (matches (Times n a) s)" and t: "t \<in> set (matches a v)"
      by auto
    from Suc.IH[OF v] obtain m1 where m1: "s = m1 @ v" "[] \<in> set (matches (Times n a) m1)" by blast
    from Times.IH[OF t] obtain m2 where m2: "v = m2 @ t" "[] \<in> set (matches a m2)" by blast
    from matches_extend[OF m1(2), of m2] have "m2 \<in> set (matches (Times n a) (m1 @ m2))" by simp
    with m2(2) have "[] \<in> set (matches (Times (Suc n) a) (m1 @ m2))" by auto
    moreover have "s = (m1 @ m2) @ t" using m1 m2 by simp
    ultimately show ?case by blast
  qed
next
  case (StarCls cs)
  then show ?case using star_cls_accepts by simp
qed

lemma filter_head:
  assumes "filter P xs = t # ys"
  shows "t \<in> set xs" and "P t"
proof -
  from assms have "t \<in> set (filter P xs)" by simp
  then show "t \<in> set xs" and "P t" by simp_all
qed

lemma first_match_in:
  assumes "first_match r ma s = Some t"
  shows "t \<in> set (matches r s)"
proof -
  from assms obtain ys
    where "filter (\<lambda>t. if ma then length t < length s else True) (matches r s) = t # ys"
    unfolding first_match_def by (simp split: list.splits)
  then show ?thesis by (rule filter_head(1))
qed

lemma first_match_adv:
  assumes "first_match r True s = Some t"
  shows "length t < length s"
proof -
  from assms obtain ys
    where "filter (\<lambda>t. length t < length s) (matches r s) = t # ys"
    unfolding first_match_def by (simp split: list.splits)
  then show ?thesis by (rule filter_head(2))
qed

lemma first_match_none: "matches r s = [] \<Longrightarrow> first_match r ma s = None"
  unfolding first_match_def by simp

lemma finditer_None_Nil: "first_match r ma [] = None \<Longrightarrow> finditer r ma [] = []"
  by (subst finditer.simps) simp

lemma finditer_None_Cons:
  "first_match r ma (c # cs) = None \<Longrightarrow> finditer r ma (c # cs) = Keep c # finditer r False cs"
  by (subst finditer.simps) simp

lemma finditer_Some_adv:
  "first_match r ma s = Some t \<Longrightarrow> length t < length s \<Longrightarrow>
   finditer r ma s = Hit (take (length s - length t) s) # finditer r False t"
  by (subst finditer.simps) simp

lemma finditer_Some_empty:
  "first_match r False s = Some t \<Longrightarrow> \<not> length t < length s \<Longrightarrow>
   finditer r False s = Hit [] # finditer r True s"
  by (subst finditer.simps) simp

lemma first_match_not_adv:
  assumes "first_match r ma s = Some t" and "\<not> length t < length s"
  shows "\<not> ma"
proof
  assume ma
  with assms(1) have "first_match r True s = Some t" by simp
  from first_match_adv[OF this] assms(2) show False by simp
qed

lemma finditer_tiles: "concat (map seg_src (finditer r ma s)) = s"
proof (induction r ma s rule: finditer.induct)
  case (1 r ma s)
  show ?case
  proof (cases "first_match r ma s")
    case None
    show ?thesis
    proof (cases s)
      case Nil
      with None have "finditer r ma s = []" by (simp add: finditer_None_Nil)
      with Nil show ?thesis by simp
    next
      case (Cons c cs)
      with None have "finditer r ma s = Keep c # finditer r False cs"
        by (simp add: finditer_None_Cons)
      with 1(1)[OF None Cons] Cons show ?thesis by simp
    qed
  next
    case (Some t)
    from matches_suffix[OF first_match_in[OF Some]] obtain m where m: "s = m @ t" by blast
    show ?thesis
    proof (cases "length t < length s")
      case True
      have "take (length s - length t) s = m" using m by simp
      with finditer_Some_adv[OF Some True] 1(2)[OF Some True] m show ?thesis by simp
    next
      case False
      with m have mt: "m = []" by simp
      have nma: "\<not> ma" by (rule first_match_not_adv[OF Some False])
      with Some have "first_match r False s = Some t" by simp
      from finditer_Some_empty[OF this False] nma 1(3)[OF Some False nma] show ?thesis by simp
    qed
  qed
qed

lemma finditer_hits: "Hit m \<in> set (finditer r ma s) \<Longrightarrow> accepts r m"
proof (induction r ma s arbitrary: m rule: finditer.induct)
  case (1 r ma s)
  show ?case
  proof (cases "first_match r ma s")
    case None
    show ?thesis
    proof (cases s)
      case Nil
      with None have "finditer r ma s = []" by (simp add: finditer_None_Nil)
      with 1(4) show ?thesis by simp
    next
      case (Cons c cs)
      with None have "finditer r ma s = Keep c # finditer r False cs"
        by (simp add: finditer_None_Cons)
      with 1(4) have "Hit m \<in> set (finditer r False cs)" by simp
      from 1(1)[OF None Cons this] show ?thesis .
    qed
  next
    case (Some t)
    from matches_accepts[OF first_match_in[OF Some]]
    obtain p where p: "s = p @ t" "[] \<in> set (matches r p)" by blast
    show ?thesis
    proof (cases "length t < length s")
      case True
      have tk: "take (length s - length t) s = p" using p by simp
      from 1(4) finditer_Some_adv[OF Some True] tk
      have "m = p \<or> Hit m \<in> set (finditer r False t)" by simp
      then show ?thesis
      proof
        assume "m = p" with p(2) show ?thesis by (simp add: accepts_def)
      next
        assume "Hit m \<in> set (finditer r False t)"
        from 1(2)[OF Some True this] show ?thesis .
      qed
    next
      case False
      with p have pe: "p = []" by simp
      have nma: "\<not> ma" by (rule first_match_not_adv[OF Some False])
      with Some have "first_match r False s = Some t" by simp
      from finditer_Some_empty[OF this False] nma 1(4)
      have "m = [] \<or> Hit m \<in> set (finditer r True s)" by simp
      then show ?thesis
      proof
        assume "m = []" with p(2) pe show ?thesis by (simp add: accepts_def)
      next
        assume "Hit m \<in> set (finditer r True s)"
        from 1(3)[OF Some False nma this] show ?thesis .
      qed
    qed
  qed
qed

lemma subst_keep: "subst f (map Keep s) g = (Inr s, g, [])"
  by (induction s) auto

lemma finditer_no_match: "\<not> re_search r s \<Longrightarrow> finditer r ma s = map Keep s"
proof (induction s arbitrary: ma)
  case Nil
  then have "first_match r ma [] = None" by (simp add: first_match_none)
  then show ?case by (simp add: finditer_None_Nil)
next
  case (Cons c cs)
  from Cons.prems have m: "matches r (c # cs) = []" and ns: "\<not> re_search r cs"
    by (auto split: if_splits)
  have "first_match r ma (c # cs) = None" by (rule first_match_none[OF m])
  moreover have "finditer r False cs = map Keep cs" by (rule Cons.IH[OF ns])
  ultimately show ?case by (simp add: finditer_None_Cons)
qed

lemma re_search_substring: "re_search r s \<longleftrightarrow> (\<exists>u v w. s = u @ v @ w \<and> accepts r v)"
proof
  assume "re_search r s"
  then show "\<exists>u v w. s = u @ v @ w \<and> accepts r v"
  proof (induction s)
    case Nil
    then obtain t where "t \<in> set (matches r [])" by (cases "matches r []") auto
    from matches_accepts[OF this] obtain m where e: "[] = m @ t" and a: "[] \<in> set (matches r m)" by blast
    from e[symmetric] have "m = []" by simp
    with a have "accepts r []" by (simp add: accepts_def)
    moreover have "([]::string) = [] @ [] @ []" by simp
    ultimately show ?case by blast
  next
    case (Cons c cs)
    show ?case
    proof (cases "matches r (c # cs) = []")
      case True
      with Cons.prems have "re_search r cs" by simp
      from Cons.IH[OF this] obtain u v w where "cs = u @ v @ w" "accepts r v" by blast
      then have "c # cs = (c # u) @ v @ w \<and> accepts r v" by simp
      then show ?thesis by blast
    next
      case False
      then obtain t where "t \<in> set (matches r (c # cs))" by (cases "matches r (c # cs)") auto
      from matches_accepts[OF this] obtain m where e: "c # cs = m @ t" and a: "[] \<in> set (matches r m)" by blast
      from a have "accepts r m" by (simp add: accepts_def)
      moreover from e have "c # cs = [] @ m @ t" by simp
      ultimately show ?thesis by blast
    qed
  qed
next
  assume "\<exists>u v w. s = u @ v @ w \<and> accepts r v"
  then obtain u v w where s: "s = u @ v @ w" and a: "accepts r v" by blast
  from a have "[] \<in> set (matches r v)" by (simp add: accepts_def)
  from matches_extend[OF this, of w] have ne: "matches r (v @ w) \<noteq> []" by auto
  have "re_search r (u @ v @ w)"
  proof (induction u)
    case Nil
    show ?case using ne by (cases "v @ w") (simp_all)
  next
    case (Cons x xs)
    then show ?case by simp
  qed
  with s show "re_search r s" by simp
qed

lemma catch_generation_ok: "\<exists>v g' lg. catch_generation n m p = (Inr v, g', lg)"
  by (cases "(n, m, p)" rule: catch_generation.cases) simp_all

lemma generate_fake_value_ok: "\<exists>v g' lg. generate_fake_value fk n m g = (Inr v, g', lg)"
  unfolding generate_fake_value_def by (simp add: catch_generation_ok)

lemma subst_fill:
  assumes f: "\<And>m g. \<exists>v g' lg. f m g = (Inr v, g', lg)"
  shows "\<exists>vs g' lg. length vs = length (filter is_hit segs) \<and> subst f segs g = (Inr (fill segs vs), g', lg)"
proof (induction segs arbitrary: g)
  case Nil
  have "length ([]::string list) = length (filter is_hit []) \<and> subst f [] g = (Inr (fill [] []), g, [])" by simp
  then show ?case by blast
next
  case (Cons sg segs)
  show ?case
  proof (cases sg)
    case (Keep c)
    from Cons.IH[of g] obtain vs g' lg where
      "length vs = length (filter is_hit segs)" "subst f segs g = (Inr (fill segs vs), g', lg)" by blast
    with Keep have "length vs = length (filter is_hit (sg # segs)) \<and> subst f (sg # segs) g = (Inr (fill (sg # segs) vs), g', lg)"
      by simp
    then show ?thesis by blast
  next
    case (Hit m)
    from f[of m g] obtain v g1 l1 where v: "f m g = (Inr v, g1, l1)" by blast
    from Cons.IH[of g1] obtain vs g' lg where
      "length vs = length (filter is_hit segs)" "subst f segs g1 = (Inr (fill segs vs), g', lg)" by blast
    with Hit v have "length (v # vs) = length (filter is_hit (sg # segs)) \<and> subst f (sg # segs) g = (Inr (fill (sg # segs) (v # vs)), g', l1 @ lg)"
      by simp
    then show ?thesis by blast
  qed
qed


lemma replace_pattern_fill:
  "\<exists>vs g' lg. length vs = length (filter is_hit (finditer r False T))
      \<and> replace_pattern fk T r n g = (Inr (fill (finditer r False T) vs), g', lg)"
proof -
  from subst_fill[of "generate_fake_value fk n" "finditer r False T" g, OF generate_fake_value_ok]
  obtain vs g' lg where "length vs = length (filter is_hit (finditer r False T))"
    and "subst (generate_fake_value fk n) (finditer r False T) g = (Inr (fill (finditer r False T) vs), g', lg)"
    by blast
  then have "length vs = length (filter is_hit (finditer r False T))
      \<and> replace_pattern fk T r n g = (Inr (fill (finditer r False T) vs), g', lg)"
    by (simp add: replace_pattern_def re_sub_def)
  then show ?thesis by blast
qed

lemma replace_pattern_ok: "\<exists>out g' lg. replace_pattern fk T r n g = (Inr out, g', lg)"
  using replace_pattern_fill[of r T fk n g] by blast

lemma replace_pattern_no_match:
  assumes "\<not> re_search r T"
  shows "replace_pattern fk T r n g = (Inr T, g, [])"
  by (simp add: replace_pattern_def re_sub_def finditer_no_match[OF assms] subst_keep)

lemma scramble_loop_ok: "\<exists>out g' lg. scramble_loop fk ns T g = (Inr out, g', lg)"
proof (induction ns arbitrary: T g)
  case Nil
  show ?case by simp
next
  case (Cons n ns)
  show ?case
  proof (cases "map_of patterns n")
    case None
    from Cons.IH[of T g] obtain out g' lg where "scramble_loop fk ns T g = (Inr out, g', lg)" by blast
    with None show ?thesis by simp
  next
    case (Some r)
    from replace_pattern_ok[of fk T r n g] obtain T1 g1 l1 where
      r: "replace_pattern fk T r n g = (Inr T1, g1, l1)" by blast
    from Cons.IH[of T1 g1] obtain out g' lg where "scramble_loop fk ns T1 g1 = (Inr out, g', lg)" by blast
    with Some r show ?thesis by simp
  qed
qed

lemma scramble_loop_append:
  "scramble_loop fk (xs @ ys) T g =
     (case scramble_loop fk xs T g of
        (Inl e, g1, l1) \<Rightarrow> (Inl e, g1, l1)
      | (Inr T1, g1, l1) \<Rightarrow>
          (case scramble_loop fk ys T1 g1 of (res, g2, l2) \<Rightarrow> (res, g2, l1 @ l2)))"
proof (induction xs arbitrary: T g)
  case Nil
  show ?case by (simp split: prod.splits)
next
  case (Cons n ns)
  show ?case
  proof (cases "map_of patterns n")
    case None
    from scramble_loop_ok[of fk ns T g] obtain out g' lg where
      o: "scramble_loop fk ns T g = (Inr out, g', lg)" by blast
    with None Cons.IH[of T g] show ?thesis by (simp split: prod.splits)
  next
    case (Some r)
    from replace_pattern_ok[of fk T r n g] obtain T1 g1 l1 where
      r: "replace_pattern fk T r n g = (Inr T1, g1, l1)" by blast
    from scramble_loop_ok[of fk ns T1 g1] obtain out g' lg where
      o: "scramble_loop fk ns T1 g1 = (Inr out, g', lg)" by blast
    with Some r Cons.IH[of T1 g1] show ?thesis by (simp split: prod.splits)
  qed
qed

lemma scramble_loop_no_match:
  assumes "\<And>n r. n \<in> set ns \<Longrightarrow> map_of patterns n = Some r \<Longrightarrow> \<not> re_search r T"
  shows "fst (scramble_loop fk ns T g) = Inr T \<and> fst (snd (scramble_loop fk ns T g)) = g"
  using assms
proof (induction ns)
  case Nil
  show ?case by simp
next
  case (Cons n ns)
  have ih: "fst (scramble_loop fk ns T g) = Inr T \<and> fst (snd (scramble_loop fk ns T g)) = g"
  proof (rule Cons.IH)
    fix n' r
    assume "n' \<in> set ns" and "map_of patterns n' = Some r"
    then show "\<not> re_search r T" using Cons.prems[of n' r] by simp
  qed
  obtain x g' lg where e: "scramble_loop fk ns T g = (x, g', lg)" by (rule prod_cases3)
  with ih have x: "x = Inr T" and g': "g' = g" by simp_all
  show ?case
  proof (cases "map_of patterns n")
    case None
    with e x g' show ?thesis by simp
  next
    case (Some r)
    have "\<not> re_search r T" using Cons.prems[of n r] Some by simp
    then have rp: "replace_pattern fk T r n g = (Inr T, g, [])"
      by (rule replace_pattern_no_match)
    from rp Some e x g' show ?thesis by simp
  qed
qed

lemma patterns_cases:
  "map_of patterns n = Some r \<Longrightarrow>
   r = phone_number_re \<or> r = credit_card_re \<or> r = email_re \<or> r = ip_address_re"
  by (auto simp: patterns_def split: if_splits)

lemma no_empty_match:
  "matches phone_number_re [] = []" "matches credit_card_re [] = []"
  "matches email_re [] = []" "matches ip_address_re [] = []"
  by code_simp+

lemma patterns_no_empty: "map_of patterns n = Some r \<Longrightarrow> \<not> re_search r []"
  using patterns_cases[of n r] no_empty_match by auto

lemma catch_generation_log:
  "list_all (\<lambda>e. \<not> is_unknown_warning e) (snd (snd (catch_generation n m p)))"
  by (cases "(n, m, p)" rule: catch_generation.cases) simp_all

lemma generate_fake_value_log:
  "list_all (\<lambda>e. \<not> is_unknown_warning e) (snd (snd (generate_fake_value fk n m g)))"
  by (simp add: generate_fake_value_def catch_generation_log)

lemma subst_log:
  assumes f: "\<And>m g. list_all P (snd (snd (f m g)))"
  shows "list_all P (snd (snd (subst f segs g)))"
proof (induction segs arbitrary: g)
  case Nil
  show ?case by simp
next
  case (Cons sg segs)
  show ?case
  proof (cases sg)
    case (Keep c)
    obtain x g' lg where e: "subst f segs g = (x, g', lg)" by (rule prod_cases3)
    with Cons.IH[of g] have "list_all P lg" by simp
    with Keep e show ?thesis by (cases x) simp_all
  next
    case (Hit m)
    obtain y g1 l1 where v: "f m g = (y, g1, l1)" by (rule prod_cases3)
    with f[of m g] have p1: "list_all P l1" by simp
    obtain x g' lg where e: "subst f segs g1 = (x, g', lg)" by (rule prod_cases3)
    with Cons.IH[of g1] have p2: "list_all P lg" by simp
    show ?thesis
    proof (cases y)
      case (Inl ex)
      with Hit v p1 show ?thesis by simp
    next
      case (Inr w)
      with Hit v e p1 p2 show ?thesis by (cases x) simp_all
    qed
  qed
qed

lemma replace_pattern_log:
  "list_all (\<lambda>e. \<not> is_unknown_warning e) (snd (snd (replace_pattern fk T r n g)))"
proof -
  from subst_fill[of "generate_fake_value fk n" "finditer r False T" g, OF generate_fake_value_ok]
  obtain vs g' lg where
    e: "subst (generate_fake_value fk n) (finditer r False T) g = (Inr (fill (finditer r False T) vs), g', lg)"
    by blast
  from subst_log[of "\<lambda>e. \<not> is_unknown_warning e" "generate_fake_value fk n" "finditer r False T" g,
      OF generate_fake_value_log] e
  have "list_all (\<lambda>e. \<not> is_unknown_warning e) lg" by simp
  with e show ?thesis by (simp add: replace_pattern_def re_sub_def)
qed

lemma filter_none: "list_all (\<lambda>e. \<not> P e) xs \<Longrightarrow> filter P xs = []"
  by (induction xs) auto

lemma filter_all: "list_all (\<lambda>e. \<not> P e) xs \<Longrightarrow> filter (\<lambda>e. \<not> P e) xs = xs"
  by (induction xs) auto

lemma scramble_loop_skip:
  "\<exists>out g' lg lg'.
      scramble_loop fk C T g = (Inr out, g', lg)
    \<and> scramble_loop fk (filter (\<lambda>n. map_of patterns n \<noteq> None) C) T g = (Inr out, g', lg')
    \<and> filter is_unknown_warning lg = map UnknownPattern (filter (\<lambda>n. map_of patterns n = None) C)
    \<and> filter (\<lambda>e. \<not> is_unknown_warning e) lg = lg'"
proof (induction C arbitrary: T g)
  case Nil
  show ?case by simp
next
  case (Cons n ns)
  show ?case
  proof (cases "map_of patterns n")
    case None
    from Cons.IH[of T g] obtain out g' lg lg' where
      "scramble_loop fk ns T g = (Inr out, g', lg)"
      "scramble_loop fk (filter (\<lambda>n. map_of patterns n \<noteq> None) ns) T g = (Inr out, g', lg')"
      "filter is_unknown_warning lg = map UnknownPattern (filter (\<lambda>n. map_of patterns n = None) ns)"
      "filter (\<lambda>e. \<not> is_unknown_warning e) lg = lg'" by blast
    with None have
      "scramble_loop fk (n # ns) T g = (Inr out, g', UnknownPattern n # lg)
     \<and> scramble_loop fk (filter (\<lambda>n. map_of patterns n \<noteq> None) (n # ns)) T g = (Inr out, g', lg')
     \<and> filter is_unknown_warning (UnknownPattern n # lg)
         = map UnknownPattern (filter (\<lambda>n. map_of patterns n = None) (n # ns))
     \<and> filter (\<lambda>e. \<not> is_unknown_warning e) (UnknownPattern n # lg) = lg'" by simp
    then show ?thesis by blast
  next
    case (Some r)
    from replace_pattern_ok[of fk T r n g] obtain T1 g1 l1 where
      rp: "replace_pattern fk T r n g = (Inr T1, g1, l1)" by blast
    from replace_pattern_log[of fk T r n g] rp
    have l1: "list_all (\<lambda>e. \<not> is_unknown_warning e) l1" by simp
    from Cons.IH[of T1 g1] obtain out g' lg lg' where
      "scramble_loop fk ns T1 g1 = (Inr out, g', lg)"
      "scramble_loop fk (filter (\<lambda>n. map_of patterns n \<noteq> None) ns) T1 g1 = (Inr out, g', lg')"
      "filter is_unknown_warning lg = map UnknownPattern (filter (\<lambda>n. map_of patterns n = None) ns)"
      "filter (\<lambda>e. \<not> is_unknown_warning e) lg = lg'" by blast
    with Some rp filter_none[OF l1] filter_all[OF l1] have
      "scramble_loop fk (n # ns) T g = (Inr out, g', l1 @ lg)
     \<and> scramble_loop fk (filter (\<lambda>n. map_of patterns n \<noteq> None) (n # ns)) T g = (Inr out, g', l1 @ lg')
     \<and> filter is_unknown_warning (l1 @ lg)
         = map UnknownPattern (filter (\<lambda>n. map_of patterns n = None) (n # ns))
     \<and> filter (\<lambda>e. \<not> is_unknown_warning e) (l1 @ lg) = l1 @ lg'" by simp
    then show ?thesis by blast
  qed
qed

lemma scramble_loop_single:
  "scramble_loop fk [n] T g =
     (case map_of patterns n of
        None \<Rightarrow> (Inr T, g, [UnknownPattern n])
      | Some r \<Rightarrow> replace_pattern fk T r n g)"
proof (cases "map_of patterns n")
  case None
  then show ?thesis by simp
next
  case (Some r)
  from replace_pattern_ok[of fk T r n g] obtain T1 g1 l1 where
    "replace_pattern fk T r n g = (Inr T1, g1, l1)" by blast
  with Some show ?thesis by simp
qed

lemma digit_not_sep:
  "citem_mem c Digit \<Longrightarrow> \<not> in_class c [Single (CHR ''-''), Single (CHR ''.''), Space]"
  by (auto simp: in_class_def less_eq_char_def)

lemma digit_not_paren: "citem_mem c Digit \<Longrightarrow> c \<noteq> CHR ''(''"
  by (auto simp: less_eq_char_def)

lemma seven_digits:
  assumes "list_all (\<lambda>c. citem_mem c Digit) [a, b, c, d, e, f, h]"
  shows "matches phone_number_re [a, b, c, d, e, f, h] = [[]]"
  using assms digit_not_sep digit_not_paren
  by (simp add: phone_number_re_def digit_def sep_def in_class_def eval_nat_numeral del: citem_mem.simps)

lemma map_of_phone: "map_of patterns ''phone_number'' = Some phone_number_re"
  by (simp add: patterns_def)

lemma map_of_ip: "map_of patterns ''ip_address'' = Some ip_address_re"
  by (simp add: patterns_def)

lemma ip_999: "\<not> re_search ip_address_re ''999.999.999.999''"
  by code_simp

lemma finditer_whole:
  assumes m: "matches r d = [[]]" and ne: "d \<noteq> []" and e: "matches r [] = []"
  shows "finditer r False d = [Hit d]"
proof -
  from m have f: "first_match r False d = Some []" by (simp add: first_match_def)
  from ne have l: "length ([]::string) < length d" by simp
  from e have "first_match r False [] = None" by (rule first_match_none)
  then have "finditer r False [] = []" by (rule finditer_None_Nil)
  with finditer_Some_adv[OF f l] show ?thesis by simp
qed

lemma replace_whole:
  assumes "finditer r False d = [Hit d]"
  shows "replace_pattern fk d r n g = generate_fake_value fk n d g"
proof -
  from generate_fake_value_ok[of fk n d g] obtain v g' lg where
    "generate_fake_value fk n d g = (Inr v, g', lg)" by blast
  with assms show ?thesis by (simp add: replace_pattern_def re_sub_def)
qed

lemma seven_list: "length d = 7 \<Longrightarrow> \<exists>a b c e f h i. d = [a, b, c, e, f, h, i]"
  by (auto simp: eval_nat_numeral length_Suc_conv)

lemma ten_digits:
  assumes "list_all (\<lambda>c. citem_mem c Digit) [a, b, c, d, e, f, h, i, j, k]"
  shows "first_match phone_number_re False ([a, b, c, d, e, f, h, i, j, k] @ rest) = Some rest"
  using assms digit_not_sep digit_not_paren
  by (simp add: first_match_def phone_number_re_def digit_def sep_def in_class_def eval_nat_numeral
        del: citem_mem.simps)

lemma ten_list: "length d = 10 \<Longrightarrow> \<exists>a b c e f h i j k l. d = [a, b, c, e, f, h, i, j, k, l]"
  by (auto simp: eval_nat_numeral length_Suc_conv)

lemma card_scan:
  "finditer phone_number_re False ''4111111111111111'' = Hit ''4111111111'' # map Keep ''111111''"
  by code_simp




lemma ex1: "octet_ok [x] \<Longrightarrow> \<exists>a. x # t = a @ t \<and> octet_ok a"
  by (rule exI[of _ "[x]"]) simp

lemma ex2: "octet_ok [x, y] \<Longrightarrow> \<exists>a. x # y # t = a @ t \<and> octet_ok a"
  by (rule exI[of _ "[x, y]"]) simp

lemma ex3: "octet_ok [x, y, z] \<Longrightarrow> \<exists>a. x # y # z # t = a @ t \<and> octet_ok a"
  by (rule exI[of _ "[x, y, z]"]) simp

lemma octet_sound:
  assumes "t \<in> set (matches octet s)"
  shows "\<exists>a. s = a @ t \<and> octet_ok a"
  using assms
  by (auto simp: octet_def lits_def d09_def in_class_def octet_ok_def decimal_def digit_val_def
        less_eq_char_def split: list.splits if_splits intro!: ex1 ex2 ex3)

lemma octet_dot:
  assumes "t \<in> set (matches (Seq octet (Lit (CHR ''.''))) s)"
  shows "\<exists>a. s = a @ ''.'' @ t \<and> octet_ok a"
proof -
  from assms obtain u where u: "u \<in> set (matches octet s)" and t: "t \<in> set (matches (Lit (CHR ''.'')) u)"
    by auto
  from t have ut: "u = CHR ''.'' # t" by (cases u) (auto split: if_splits)
  from octet_sound[OF u] obtain a where "s = a @ u" "octet_ok a" by blast
  with ut have "s = a @ ''.'' @ t \<and> octet_ok a" by simp
  then show ?thesis by blast
qed

lemma ip_sound:
  assumes "accepts ip_address_re m"
  shows "\<exists>a b c d. m = a @ ''.'' @ b @ ''.'' @ c @ ''.'' @ d
           \<and> octet_ok a \<and> octet_ok b \<and> octet_ok c \<and> octet_ok d"
proof -
  from assms obtain u3 where
    u3: "u3 \<in> set (matches (Times 3 (Seq octet (Lit (CHR ''.'')))) m)" and e: "[] \<in> set (matches octet u3)"
    by (auto simp: accepts_def ip_address_re_def)
  from u3 obtain u1 u2 where
    1: "u1 \<in> set (matches (Seq octet (Lit (CHR ''.''))) m)" and
    2: "u2 \<in> set (matches (Seq octet (Lit (CHR ''.''))) u1)" and
    3: "u3 \<in> set (matches (Seq octet (Lit (CHR ''.''))) u2)"
    by (auto simp: eval_nat_numeral simp del: matches.simps(4))
  from octet_dot[OF 1] obtain a where a: "m = a @ ''.'' @ u1" "octet_ok a" by blast
  from octet_dot[OF 2] obtain b where b: "u1 = b @ ''.'' @ u2" "octet_ok b" by blast
  from octet_dot[OF 3] obtain c where c: "u2 = c @ ''.'' @ u3" "octet_ok c" by blast
  from octet_sound[OF e] obtain d where d: "u3 = d @ []" "octet_ok d" by blast
  from a b c d have "m = a @ ''.'' @ b @ ''.'' @ c @ ''.'' @ d
           \<and> octet_ok a \<and> octet_ok b \<and> octet_ok c \<and> octet_ok d" by simp
  then show ?thesis by blast
qed

lemma scramble_loop_known:
  "scramble_loop fk (filter (\<lambda>n. map_of patterns n \<noteq> None) C) T g = run_passes fk (known_passes C) T g"
proof (induction C arbitrary: T g)
  case Nil
  show ?case by (simp add: known_passes_def)
next
  case (Cons n ns)
  show ?case
  proof (cases "map_of patterns n")
    case None
    with Cons.IH[of T g] show ?thesis by (simp add: known_passes_def)
  next
    case (Some r)
    from replace_pattern_ok[of fk T r n g] obtain T1 g1 l1 where
      rp: "replace_pattern fk T r n g = (Inr T1, g1, l1)" by blast
    with Some Cons.IH[of T1 g1] show ?thesis by (simp add: known_passes_def)
  qed
qed

lemma phone_no_start: "no_start c \<Longrightarrow> matches phone_number_re (c # s) = []"
  by (simp add: no_start_def phone_number_re_def digit_def in_class_def eval_nat_numeral
        split: if_splits del: citem_mem.simps)

lemma finditer_skip_prefix:
  "list_all no_start pre \<Longrightarrow>
   finditer phone_number_re False (pre @ s) = map Keep pre @ finditer phone_number_re False s"
proof (induction pre)
  case Nil
  show ?case by simp
next
  case (Cons c cs)
  then have "no_start c" and ih: "finditer phone_number_re False (cs @ s) = map Keep cs @ finditer phone_number_re False s"
    by simp_all
  from phone_no_start[OF this(1), of "cs @ s"]
  have "first_match phone_number_re False (c # cs @ s) = None" by (rule first_match_none)
  from finditer_None_Cons[OF this] ih show ?case by simp
qed

lemma finditer_phone_nil: "finditer phone_number_re False [] = []"
  by (rule finditer_None_Nil[OF first_match_none[OF no_empty_match(1)]])

lemma finditer_ten:
  assumes "list_all (\<lambda>c. citem_mem c Digit) d" and "length d = 10"
  shows "finditer phone_number_re False (d @ rest) = Hit d # finditer phone_number_re False rest"
proof -
  from assms ten_list[of d] obtain a b c e f x i j k l where d: "d = [a, b, c, e, f, x, i, j, k, l]" by blast
  with assms have fm: "first_match phone_number_re False (d @ rest) = Some rest"
    using ten_digits[of a b c e f x i j k l rest] by simp
  from assms(2) have l: "length rest < length (d @ rest)" by simp
  from finditer_Some_adv[OF fm l] show ?thesis by simp
qed

lemma short_shape:
  "length ds \<le> 6 \<Longrightarrow>
     ds = [] \<or> (\<exists>a. ds = [a]) \<or> (\<exists>a b. ds = [a, b]) \<or> (\<exists>a b c. ds = [a, b, c])
   \<or> (\<exists>a b c d. ds = [a, b, c, d]) \<or> (\<exists>a b c d e. ds = [a, b, c, d, e])
   \<or> (\<exists>a b c d e f. ds = [a, b, c, d, e, f])"
  by (auto simp: eval_nat_numeral le_Suc_eq length_Suc_conv)

lemma post_shape:
  "list_all no_start post \<Longrightarrow>
     post = [] \<or> (\<exists>p. post = [p] \<and> no_start p)
   \<or> (\<exists>p q qs. post = p # q # qs \<and> no_start p \<and> no_start q)"
  by (cases post; cases "tl post") auto

lemma no_start_not_digit: "no_start c \<Longrightarrow> \<not> citem_mem c Digit"
  by (simp add: no_start_def split: if_splits)

lemma no_start_not_paren: "no_start c \<Longrightarrow> c \<noteq> CHR ''(''"
  by (simp add: no_start_def split: if_splits)

lemma tail_no_match:
  assumes "list_all (\<lambda>c. citem_mem c Digit) ds" and "length ds \<le> 6" and "list_all no_start post"
  shows "matches phone_number_re (ds @ post) = []"
  using short_shape[OF assms(2)] post_shape[OF assms(3)] assms(1)
    digit_not_sep digit_not_paren no_start_not_digit no_start_not_paren
  by (elim disjE exE conjE;
      simp add: phone_number_re_def digit_def sep_def in_class_def eval_nat_numeral
        del: citem_mem.simps)

lemma finditer_tail:
  "list_all (\<lambda>c. citem_mem c Digit) ds \<Longrightarrow> length ds \<le> 6 \<Longrightarrow> list_all no_start post \<Longrightarrow>
   finditer phone_number_re False (ds @ post) = map Keep (ds @ post)"
proof (induction ds)
  case Nil
  from finditer_skip_prefix[OF Nil(3), of "[]"] finditer_phone_nil show ?case by simp
next
  case (Cons x xs)
  from Cons.prems have ih: "finditer phone_number_re False (xs @ post) = map Keep (xs @ post)"
    using Cons.IH by simp
  from tail_no_match[OF Cons.prems] have "matches phone_number_re (x # xs @ post) = []" by simp
  then have "first_match phone_number_re False (x # xs @ post) = None" by (rule first_match_none)
  from finditer_None_Cons[OF this] ih show ?case by simp
qed

lemma subst_keep_prefix:
  "subst f (map Keep pre @ segs) g =
     (case subst f segs g of
        (Inl e, g', lg) \<Rightarrow> (Inl e, g', lg)
      | (Inr out, g', lg) \<Rightarrow> (Inr (pre @ out), g', lg))"
proof (induction pre)
  case Nil
  obtain x g' lg where "subst f segs g = (x, g', lg)" by (rule prod_cases3)
  then show ?case by (cases x) simp_all
next
  case (Cons c cs)
  obtain x g' lg where "subst f segs g = (x, g', lg)" by (rule prod_cases3)
  with Cons show ?case by (cases x) simp_all
qed

lemma card_number_scan:
  assumes "list_all no_start pre" and "list_all (\<lambda>c. citem_mem c Digit) d10" and "length d10 = 10"
    and "list_all (\<lambda>c. citem_mem c Digit) d6" and "length d6 = 6" and "list_all no_start post"
  shows "finditer phone_number_re False (pre @ d10 @ d6 @ post)
           = map Keep pre @ Hit d10 # map Keep (d6 @ post)"
proof -
  from assms(5) have "length d6 \<le> 6" by simp
  from finditer_tail[OF assms(4) this assms(6)]
  have "finditer phone_number_re False (d6 @ post) = map Keep (d6 @ post)" .
  with finditer_ten[OF assms(2,3), of "d6 @ post"] finditer_skip_prefix[OF assms(1), of "d10 @ d6 @ post"]
  show ?thesis by simp
qed

lemma card_number_pass:
  assumes "list_all no_start pre" and "list_all (\<lambda>c. citem_mem c Digit) d10" and "length d10 = 10"
    and "list_all (\<lambda>c. citem_mem c Digit) d6" and "length d6 = 6" and "list_all no_start post"
    and v: "generate_fake_value fk ''phone_number'' d10 g = (Inr v, g1, l1)"
  shows "replace_pattern fk (pre @ d10 @ d6 @ post) phone_number_re ''phone_number'' g
           = (Inr (pre @ v @ d6 @ post), g1, l1)"
proof -
  have k: "subst (generate_fake_value fk ''phone_number'') (map Keep (d6 @ post)) g1 = (Inr (d6 @ post), g1, [])"
    by (rule subst_keep)
  from v k have "subst (generate_fake_value fk ''phone_number'') (Hit d10 # map Keep (d6 @ post)) g
      = (Inr (v @ d6 @ post), g1, l1)" by (simp del: map_append)
  then have "subst (generate_fake_value fk ''phone_number'') (map Keep pre @ Hit d10 # map Keep (d6 @ post)) g
      = (Inr (pre @ v @ d6 @ post), g1, l1)" by (simp add: subst_keep_prefix del: map_append)
  then show ?thesis
    by (simp add: replace_pattern_def re_sub_def card_number_scan[OF assms(1-6)] del: map_append)
qed

section \<open>Properties of \<open>scramble_text\<close>\<close>

text \<open>
  C10. An explicitly empty list of pattern names applies no pattern: the text comes
  back as it was, the provider is not called and nothing is logged. Only \<open>None\<close>
  selects the default, the four keys of the pattern table: on \<open>5551234\<close>, with a
  provider that returns \<open>X\<close> for a phone number, \<open>None\<close> gives \<open>X\<close> where the
  empty list gives the input back.
\<close>

theorem scramble_text_empty_list_identity:
  "scramble_text fk T (Some []) g = (Inr T, g, [])
   \<and> scramble_text fk T None g
       = scramble_text fk T (Some [''phone_number'', ''credit_card'', ''email'', ''ip_address'']) g
   \<and> fst (scramble_text (const_faker ''X'' ''Y'' ''Z'' ''W'') ''5551234'' None ()) = Inr ''X''
   \<and> fst (scramble_text (const_faker ''X'' ''Y'' ''Z'' ''W'') ''5551234'' (Some []) ()) = Inr ''5551234''"
proof -
  have a: "scramble_text fk T (Some []) g = (Inr T, g, [])"
    by (simp add: scramble_text_def)
  have b: "scramble_text fk T None g
       = scramble_text fk T (Some [''phone_number'', ''credit_card'', ''email'', ''ip_address'']) g"
    by (simp add: scramble_text_def patterns_def)
  have c: "fst (scramble_text (const_faker ''X'' ''Y'' ''Z'' ''W'') ''5551234'' None ()) = Inr ''X''"
    by code_simp
  have d: "fst (scramble_text (const_faker ''X'' ''Y'' ''Z'' ''W'') ''5551234'' (Some []) ()) = Inr ''5551234''"
    by code_simp
  from a b c d show ?thesis by blast
qed

text \<open>
  C2. For every text, every list of pattern names or \<open>None\<close>, every provider and
  provider state, \<open>scramble_text\<close> returns a string and raises nothing: exceptions of
  the provider are caught in \<open>generate_fake_value\<close>. The empty text gives the empty
  text and leaves the provider untouched. A text in which none of the four patterns
  has a match comes back unchanged, with the provider untouched and nothing logged.
\<close>

theorem scramble_text_never_raises:
  "(\<exists>out g' lg. scramble_text fk T C g = (Inr out, g', lg))
   \<and> fst (scramble_text fk [] C g) = Inr []
   \<and> fst (snd (scramble_text fk [] C g)) = g
   \<and> (\<not> re_search phone_number_re T \<and> \<not> re_search credit_card_re T
        \<and> \<not> re_search email_re T \<and> \<not> re_search ip_address_re T
      \<longrightarrow> scramble_text fk T None g = (Inr T, g, []))"
proof -
  have a: "\<exists>out g' lg. scramble_text fk T C g = (Inr out, g', lg)"
    unfolding scramble_text_def by (rule scramble_loop_ok)
  have b: "fst (scramble_text fk [] C g) = Inr [] \<and> fst (snd (scramble_text fk [] C g)) = g"
    unfolding scramble_text_def
    by (rule scramble_loop_no_match) (rule patterns_no_empty)
  have c: "scramble_text fk T None g = (Inr T, g, [])"
    if h: "\<not> re_search phone_number_re T \<and> \<not> re_search credit_card_re T
        \<and> \<not> re_search email_re T \<and> \<not> re_search ip_address_re T"
  proof -
    from h have
      "replace_pattern fk T phone_number_re ''phone_number'' g = (Inr T, g, [])"
      "replace_pattern fk T credit_card_re ''credit_card'' g = (Inr T, g, [])"
      "replace_pattern fk T email_re ''email'' g = (Inr T, g, [])"
      "replace_pattern fk T ip_address_re ''ip_address'' g = (Inr T, g, [])"
      by (simp_all add: replace_pattern_no_match)
    then show ?thesis by (simp add: scramble_text_def patterns_def)
  qed
  from a b c show ?thesis by blast
qed

theorem scramble_text_never_raises_witness:
  "\<not> re_search phone_number_re ''hello, world'' \<and> \<not> re_search credit_card_re ''hello, world''
   \<and> \<not> re_search email_re ''hello, world'' \<and> \<not> re_search ip_address_re ''hello, world''
   \<and> scramble_text failing_faker ''hello, world'' None () = (Inr ''hello, world'', (), [])"
proof -
  have h: "\<not> re_search phone_number_re ''hello, world'' \<and> \<not> re_search credit_card_re ''hello, world''
   \<and> \<not> re_search email_re ''hello, world'' \<and> \<not> re_search ip_address_re ''hello, world''"
    by code_simp
  with scramble_text_never_raises[of failing_faker "''hello, world''" None "()"]
  show ?thesis by blast
qed

text \<open>
  C3. Names that are not keys of the pattern table are skipped and the known names
  of the same list are still applied: the run returns normally, and its text and
  provider state are those of the chain of replacement passes over the known names
  of the list, in the order of the list (which is also the run on the list with the
  unknown names removed). Each unknown name adds exactly one warning to the log, in
  order, and the rest of the log is that of the chain of passes. With \<open>ssn\<close> and
  \<open>bogus\<close> in the list, the phone number and the email address of
  \<open>5551234 a@b.co\<close> are both replaced and two warnings are logged.
\<close>

theorem unknown_names_skipped:
  "(\<exists>out g' lg lg'.
      scramble_text fk T (Some C) g = (Inr out, g', lg)
    \<and> scramble_text fk T (Some (filter (\<lambda>n. map_of patterns n \<noteq> None) C)) g = (Inr out, g', lg')
    \<and> run_passes fk (known_passes C) T g = (Inr out, g', lg')
    \<and> filter is_unknown_warning lg = map UnknownPattern (filter (\<lambda>n. map_of patterns n = None) C)
    \<and> filter (\<lambda>e. \<not> is_unknown_warning e) lg = lg')
   \<and> known_passes [''ssn'', ''phone_number'', ''bogus'', ''email'']
       = [(''phone_number'', phone_number_re), (''email'', email_re)]
   \<and> scramble_text (const_faker ''P'' ''C'' ''E'' ''I'') ''5551234 a@b.co''
        (Some [''ssn'', ''phone_number'', ''bogus'', ''email'']) ()
       = (Inr ''P E'', (), [UnknownPattern ''ssn'', UnknownPattern ''bogus''])
   \<and> scramble_text (const_faker ''P'' ''C'' ''E'' ''I'') ''5551234 a@b.co''
        (Some [''phone_number'', ''email'']) ()
       = (Inr ''P E'', (), [])"
proof -
  from scramble_loop_skip[of fk C T g] obtain out g' lg lg' where
    1: "scramble_loop fk C T g = (Inr out, g', lg)" and
    2: "scramble_loop fk (filter (\<lambda>n. map_of patterns n \<noteq> None) C) T g = (Inr out, g', lg')" and
    3: "filter is_unknown_warning lg = map UnknownPattern (filter (\<lambda>n. map_of patterns n = None) C)" and
    4: "filter (\<lambda>e. \<not> is_unknown_warning e) lg = lg'" by blast
  from 2 have 5: "run_passes fk (known_passes C) T g = (Inr out, g', lg')"
    by (simp only: scramble_loop_known)
  from 1 2 3 4 5 have a: "\<exists>out g' lg lg'.
      scramble_text fk T (Some C) g = (Inr out, g', lg)
    \<and> scramble_text fk T (Some (filter (\<lambda>n. map_of patterns n \<noteq> None) C)) g = (Inr out, g', lg')
    \<and> run_passes fk (known_passes C) T g = (Inr out, g', lg')
    \<and> filter is_unknown_warning lg = map UnknownPattern (filter (\<lambda>n. map_of patterns n = None) C)
    \<and> filter (\<lambda>e. \<not> is_unknown_warning e) lg = lg'"
    unfolding scramble_text_def by (simp only: option.case) blast
  have b: "known_passes [''ssn'', ''phone_number'', ''bogus'', ''email'']
       = [(''phone_number'', phone_number_re), (''email'', email_re)]"
    by (simp add: known_passes_def patterns_def)
  have c: "scramble_text (const_faker ''P'' ''C'' ''E'' ''I'') ''5551234 a@b.co''
        (Some [''ssn'', ''phone_number'', ''bogus'', ''email'']) ()
       = (Inr ''P E'', (), [UnknownPattern ''ssn'', UnknownPattern ''bogus''])"
    by code_simp
  have d: "scramble_text (const_faker ''P'' ''C'' ''E'' ''I'') ''5551234 a@b.co''
        (Some [''phone_number'', ''email'']) ()
       = (Inr ''P E'', (), [])"
    by code_simp
  from a b c d show ?thesis by blast
qed

text \<open>
  C6. The patterns are applied one after the other: the scan for the last name of a
  list runs over the text produced by the names before it, not over the input. An
  earlier replacement can destroy a later match (the phone pass breaks up the card
  number \<open>4111111111111111\<close>, which the card pattern alone would replace) and
  can create one (the phone pattern finds nothing in \<open>jane@example.com\<close>, but
  finds \<open>5551234\<close> in the address the email pass put in its place).
\<close>

theorem later_pass_reads_current_text:
  "scramble_text fk T (Some (xs @ [n])) g =
     (case scramble_text fk T (Some xs) g of
        (Inl e, g1, l1) \<Rightarrow> (Inl e, g1, l1)
      | (Inr T1, g1, l1) \<Rightarrow>
          (case map_of patterns n of
             None \<Rightarrow> (Inr T1, g1, l1 @ [UnknownPattern n])
           | Some r \<Rightarrow>
               (case subst (generate_fake_value fk n) (finditer r False T1) g1 of
                  (res, g2, l2) \<Rightarrow> (res, g2, l1 @ l2))))
   \<and> fst (scramble_text (const_faker ''555-0000'' ''C'' ''E'' ''I'') ''4111111111111111''
            (Some [''credit_card'']) ()) = Inr ''C''
   \<and> fst (scramble_text (const_faker ''555-0000'' ''C'' ''E'' ''I'') ''4111111111111111''
            (Some [''phone_number'', ''credit_card'']) ()) = Inr ''555-0000111111''
   \<and> fst (scramble_text (const_faker ''P'' ''C'' ''bob5551234@example.org'' ''I'') ''jane@example.com''
            (Some [''phone_number'']) ()) = Inr ''jane@example.com''
   \<and> fst (scramble_text (const_faker ''P'' ''C'' ''bob5551234@example.org'' ''I'') ''jane@example.com''
            (Some [''email'', ''phone_number'']) ()) = Inr ''bobP@example.org''"
proof -
  have a: "scramble_text fk T (Some (xs @ [n])) g =
     (case scramble_text fk T (Some xs) g of
        (Inl e, g1, l1) \<Rightarrow> (Inl e, g1, l1)
      | (Inr T1, g1, l1) \<Rightarrow>
          (case map_of patterns n of
             None \<Rightarrow> (Inr T1, g1, l1 @ [UnknownPattern n])
           | Some r \<Rightarrow>
               (case subst (generate_fake_value fk n) (finditer r False T1) g1 of
                  (res, g2, l2) \<Rightarrow> (res, g2, l1 @ l2))))"
  proof -
    from scramble_loop_ok[of fk xs T g] obtain T1 g1 l1 where
      x: "scramble_loop fk xs T g = (Inr T1, g1, l1)" by blast
    show ?thesis
    proof (cases "map_of patterns n")
      case None
      with x show ?thesis
        by (simp add: scramble_text_def scramble_loop_append scramble_loop_single)
    next
      case (Some r)
      from subst_fill[of "generate_fake_value fk n" "finditer r False T1" g1, OF generate_fake_value_ok]
      obtain vs g2 l2 where
        s: "subst (generate_fake_value fk n) (finditer r False T1) g1
              = (Inr (fill (finditer r False T1) vs), g2, l2)" by blast
      then have "replace_pattern fk T1 r n g1 = (Inr (fill (finditer r False T1) vs), g2, l2)"
        by (simp add: replace_pattern_def re_sub_def)
      with x Some s show ?thesis
        by (simp add: scramble_text_def scramble_loop_append scramble_loop_single)
    qed
  qed
  have b: "fst (scramble_text (const_faker ''555-0000'' ''C'' ''E'' ''I'') ''4111111111111111''
            (Some [''credit_card'']) ()) = Inr ''C''" by code_simp
  have c: "fst (scramble_text (const_faker ''555-0000'' ''C'' ''E'' ''I'') ''4111111111111111''
            (Some [''phone_number'', ''credit_card'']) ()) = Inr ''555-0000111111''" by code_simp
  have d: "fst (scramble_text (const_faker ''P'' ''C'' ''bob5551234@example.org'' ''I'') ''jane@example.com''
            (Some [''phone_number'']) ()) = Inr ''jane@example.com''" by code_simp
  have e: "fst (scramble_text (const_faker ''P'' ''C'' ''bob5551234@example.org'' ''I'') ''jane@example.com''
            (Some [''email'', ''phone_number'']) ()) = Inr ''bobP@example.org''" by code_simp
  from a b c d e show ?thesis by blast
qed

text \<open>
  C1. One replacement pass cuts the text into kept characters and matched spans that
  together are the text, in order and without overlap; every matched span is
  accepted by the pattern; the output is the same sequence with each matched span
  replaced by one string and every kept character as it was. If no substring of the
  text is accepted by the pattern of any known name in the list, \<open>scramble_text\<close>
  returns the text unchanged and does not call the provider.
\<close>

theorem replacement_touches_only_matches:
  "concat (map seg_src (finditer r False T)) = T
   \<and> (\<forall>m. Hit m \<in> set (finditer r False T) \<longrightarrow> accepts r m)
   \<and> (\<exists>vs g' lg. length vs = length (filter is_hit (finditer r False T))
        \<and> replace_pattern fk T r n g = (Inr (fill (finditer r False T) vs), g', lg))
   \<and> ((\<forall>n r u v w. n \<in> set C \<and> map_of patterns n = Some r \<and> T = u @ v @ w
          \<longrightarrow> \<not> accepts r v)
      \<longrightarrow> fst (scramble_text fk T (Some C) g) = Inr T
        \<and> fst (snd (scramble_text fk T (Some C) g)) = g)"
proof -
  have a: "concat (map seg_src (finditer r False T)) = T" by (rule finditer_tiles)
  have b: "\<forall>m. Hit m \<in> set (finditer r False T) \<longrightarrow> accepts r m"
    using finditer_hits by blast
  have c: "\<exists>vs g' lg. length vs = length (filter is_hit (finditer r False T))
        \<and> replace_pattern fk T r n g = (Inr (fill (finditer r False T) vs), g', lg)"
    by (rule replace_pattern_fill)
  have d: "fst (scramble_text fk T (Some C) g) = Inr T
        \<and> fst (snd (scramble_text fk T (Some C) g)) = g"
    if h: "\<forall>n r u v w. n \<in> set C \<and> map_of patterns n = Some r \<and> T = u @ v @ w
          \<longrightarrow> \<not> accepts r v"
  proof -
    have "\<not> re_search r' T" if "n' \<in> set C" and "map_of patterns n' = Some r'" for n' r'
    proof
      assume "re_search r' T"
      then obtain u v w where "T = u @ v @ w" and "accepts r' v"
        unfolding re_search_substring by blast
      with h that show False by blast
    qed
    then show ?thesis unfolding scramble_text_def
      by (simp add: scramble_loop_no_match)
  qed
  from a b c d show ?thesis by blast
qed

theorem replacement_touches_only_matches_witness:
  "Hit ''5551234'' \<in> set (finditer phone_number_re False ''a 5551234'')
   \<and> accepts phone_number_re ''5551234''
   \<and> \<not> re_search ip_address_re ''ab''
   \<and> fst (scramble_text failing_faker ''ab'' (Some [''ip_address'']) ()) = Inr ''ab''"
proof -
  have h1: "Hit ''5551234'' \<in> set (finditer phone_number_re False ''a 5551234'')" by code_simp
  have h2: "\<not> re_search ip_address_re ''ab''" by code_simp
  have h3: "\<forall>n r u v w. n \<in> set [''ip_address''] \<and> map_of patterns n = Some r \<and> ''ab'' = u @ v @ w
          \<longrightarrow> \<not> accepts r v"
  proof (intro allI impI)
    fix n r u v w
    assume a: "n \<in> set [''ip_address''] \<and> map_of patterns n = Some r \<and> ''ab'' = u @ v @ w"
    then have n0: "n \<in> set [''ip_address'']" and m: "map_of patterns n = Some r" by blast+
    from n0 have n: "n = ''ip_address''" by simp
    from m n map_of_ip have r: "r = ip_address_re" by simp
    show "\<not> accepts r v"
    proof
      assume "accepts r v"
      with a r have "\<exists>u v w. ''ab'' = u @ v @ w \<and> accepts ip_address_re v" by blast
      then have "re_search ip_address_re ''ab''" by (simp only: re_search_substring)
      with h2 show False by simp
    qed
  qed
  from h1 replacement_touches_only_matches[of phone_number_re "''a 5551234''" failing_faker "''phone_number''" "()" "[]" ]
  have "accepts phone_number_re ''5551234''" by blast
  moreover from h3 replacement_touches_only_matches[of ip_address_re "''ab''" failing_faker "''ip_address''" "()" "[''ip_address'']"]
  have "fst (scramble_text failing_faker ''ab'' (Some [''ip_address'']) ()) = Inr ''ab''" by blast
  ultimately show ?thesis using h1 h2 by blast
qed



text \<open>
  C5. With \<open>None\<close> for the pattern names, all four patterns are applied, in the
  order phone_number, credit_card, email, ip_address, each to the text the one before
  it returned. A list that is given is applied in its own order: a list of one name
  is a single replacement pass (or a warning, for an unknown name), and a list
  \<open>xs @ ys\<close> is the run on \<open>xs\<close> followed by the run on \<open>ys\<close> over its output.
\<close>

theorem default_order:
  "(\<exists>T1 g1 l1 T2 g2 l2 T3 g3 l3 T4 g4 l4.
       replace_pattern fk T phone_number_re ''phone_number'' g = (Inr T1, g1, l1)
     \<and> replace_pattern fk T1 credit_card_re ''credit_card'' g1 = (Inr T2, g2, l2)
     \<and> replace_pattern fk T2 email_re ''email'' g2 = (Inr T3, g3, l3)
     \<and> replace_pattern fk T3 ip_address_re ''ip_address'' g3 = (Inr T4, g4, l4)
     \<and> scramble_text fk T None g = (Inr T4, g4, l1 @ l2 @ l3 @ l4))
   \<and> scramble_text fk T (Some [n]) g =
       (case map_of patterns n of
          None \<Rightarrow> (Inr T, g, [UnknownPattern n])
        | Some r \<Rightarrow> replace_pattern fk T r n g)
   \<and> scramble_text fk T (Some (xs @ ys)) g =
       (case scramble_text fk T (Some xs) g of
          (Inl e, g1, l1) \<Rightarrow> (Inl e, g1, l1)
        | (Inr T1, g1, l1) \<Rightarrow>
            (case scramble_text fk T1 (Some ys) g1 of (res, g2, l2) \<Rightarrow> (res, g2, l1 @ l2)))"
proof -
  from replace_pattern_ok[of fk T phone_number_re "''phone_number''" g] obtain T1 g1 l1 where
    r1: "replace_pattern fk T phone_number_re ''phone_number'' g = (Inr T1, g1, l1)" by blast
  from replace_pattern_ok[of fk T1 credit_card_re "''credit_card''" g1] obtain T2 g2 l2 where
    r2: "replace_pattern fk T1 credit_card_re ''credit_card'' g1 = (Inr T2, g2, l2)" by blast
  from replace_pattern_ok[of fk T2 email_re "''email''" g2] obtain T3 g3 l3 where
    r3: "replace_pattern fk T2 email_re ''email'' g2 = (Inr T3, g3, l3)" by blast
  from replace_pattern_ok[of fk T3 ip_address_re "''ip_address''" g3] obtain T4 g4 l4 where
    r4: "replace_pattern fk T3 ip_address_re ''ip_address'' g3 = (Inr T4, g4, l4)" by blast
  from r1 r2 r3 r4 have "scramble_text fk T None g = (Inr T4, g4, l1 @ l2 @ l3 @ l4)"
    by (simp add: scramble_text_def patterns_def)
  with r1 r2 r3 r4 have a: "\<exists>T1 g1 l1 T2 g2 l2 T3 g3 l3 T4 g4 l4.
       replace_pattern fk T phone_number_re ''phone_number'' g = (Inr T1, g1, l1)
     \<and> replace_pattern fk T1 credit_card_re ''credit_card'' g1 = (Inr T2, g2, l2)
     \<and> replace_pattern fk T2 email_re ''email'' g2 = (Inr T3, g3, l3)
     \<and> replace_pattern fk T3 ip_address_re ''ip_address'' g3 = (Inr T4, g4, l4)
     \<and> scramble_text fk T None g = (Inr T4, g4, l1 @ l2 @ l3 @ l4)" by blast
  have b: "scramble_text fk T (Some [n]) g =
       (case map_of patterns n of
          None \<Rightarrow> (Inr T, g, [UnknownPattern n])
        | Some r \<Rightarrow> replace_pattern fk T r n g)"
    unfolding scramble_text_def using scramble_loop_single[of fk n T g] by simp
  have c: "scramble_text fk T (Some (xs @ ys)) g =
       (case scramble_text fk T (Some xs) g of
          (Inl e, g1, l1) \<Rightarrow> (Inl e, g1, l1)
        | (Inr T1, g1, l1) \<Rightarrow>
            (case scramble_text fk T1 (Some ys) g1 of (res, g2, l2) \<Rightarrow> (res, g2, l1 @ l2)))"
  proof -
    from scramble_loop_ok[of fk xs T g] obtain T1 g1 l1 where
      "scramble_loop fk xs T g = (Inr T1, g1, l1)" by blast
    then show ?thesis by (simp add: scramble_text_def scramble_loop_append)
  qed
  from a b c show ?thesis by blast
qed

text \<open>
  C7. Whatever the ip_address pattern matches is a dotted quad: four octets, each of
  one to three digits with a value of at most 255, separated by dots. \<open>999\<close> is not
  such an octet, and \<open>999.999.999.999\<close> has no substring the pattern accepts: the
  scan keeps every character, and \<open>scramble_text\<close> with the ip_address pattern
  returns the text unchanged, without calling the provider and without logging.
\<close>

theorem ip_address_octets_in_range:
  "(accepts ip_address_re m \<longrightarrow>
      (\<exists>a b c d. m = a @ ''.'' @ b @ ''.'' @ c @ ''.'' @ d
         \<and> octet_ok a \<and> octet_ok b \<and> octet_ok c \<and> octet_ok d))
   \<and> \<not> octet_ok ''999''
   \<and> (\<forall>u v w. ''999.999.999.999'' = u @ v @ w \<longrightarrow> \<not> accepts ip_address_re v)
   \<and> finditer ip_address_re False ''999.999.999.999'' = map Keep ''999.999.999.999''
   \<and> scramble_text fk ''999.999.999.999'' (Some [''ip_address'']) g
       = (Inr ''999.999.999.999'', g, [])"
proof -
  have a: "accepts ip_address_re m \<longrightarrow>
      (\<exists>a b c d. m = a @ ''.'' @ b @ ''.'' @ c @ ''.'' @ d
         \<and> octet_ok a \<and> octet_ok b \<and> octet_ok c \<and> octet_ok d)"
    using ip_sound by blast
  have b: "\<not> octet_ok ''999''" by code_simp
  have c: "\<forall>u v w. ''999.999.999.999'' = u @ v @ w \<longrightarrow> \<not> accepts ip_address_re v"
    using ip_999 unfolding re_search_substring by blast
  have "replace_pattern fk ''999.999.999.999'' ip_address_re ''ip_address'' g
       = (Inr ''999.999.999.999'', g, [])"
    by (rule replace_pattern_no_match[OF ip_999])
  then have d: "scramble_text fk ''999.999.999.999'' (Some [''ip_address'']) g
       = (Inr ''999.999.999.999'', g, [])"
    by (simp add: scramble_text_def scramble_loop_single map_of_ip)
  from a b c d finditer_no_match[OF ip_999, of False] show ?thesis by blast
qed

theorem ip_address_octets_in_range_witness:
  "accepts ip_address_re ''192.168.1.1''
   \<and> (\<exists>a b c d. ''192.168.1.1'' = a @ ''.'' @ b @ ''.'' @ c @ ''.'' @ d
         \<and> octet_ok a \<and> octet_ok b \<and> octet_ok c \<and> octet_ok d)
   \<and> \<not> accepts ip_address_re ''999.999.999.999''"
proof -
  have h: "accepts ip_address_re ''192.168.1.1''" by code_simp
  have e: "''999.999.999.999'' = [] @ ''999.999.999.999'' @ []" by simp
  note t = ip_address_octets_in_range[of "''192.168.1.1''" failing_faker "()"]
  from t h have "\<exists>a b c d. ''192.168.1.1'' = a @ ''.'' @ b @ ''.'' @ c @ ''.'' @ d
         \<and> octet_ok a \<and> octet_ok b \<and> octet_ok c \<and> octet_ok d" by blast
  moreover from t e have "\<not> accepts ip_address_re ''999.999.999.999''" by blast
  ultimately show ?thesis using h by blast
qed

text \<open>
  C8. A text of exactly seven digits is matched as a whole by the phone_number
  pattern, in one way only (its third alternative), so the scan is that one span and
  \<open>scramble_text\<close> with the phone_number pattern returns what
  \<open>generate_fake_value\<close> makes of it: the provider's phone number, or the span
  itself when the provider raises. With a provider that returns \<open>X\<close>,
  \<open>5551234\<close> becomes \<open>X\<close>.
\<close>

theorem seven_digits_are_a_phone_number:
  "(list_all (\<lambda>c. citem_mem c Digit) d \<and> length d = 7 \<longrightarrow>
      matches phone_number_re d = [[]]
    \<and> finditer phone_number_re False d = [Hit d]
    \<and> scramble_text fk d (Some [''phone_number'']) g
        = catch_generation ''phone_number'' d (phone_number fk g))
   \<and> scramble_text (const_faker ''X'' ''Y'' ''Z'' ''W'') ''5551234'' (Some [''phone_number'']) ()
        = (Inr ''X'', (), [])"
proof -
  have a: "matches phone_number_re d = [[]]
    \<and> finditer phone_number_re False d = [Hit d]
    \<and> scramble_text fk d (Some [''phone_number'']) g
        = catch_generation ''phone_number'' d (phone_number fk g)"
    if h: "list_all (\<lambda>c. citem_mem c Digit) d \<and> length d = 7"
  proof -
    from h seven_list[of d] obtain a b c e f x i where d: "d = [a, b, c, e, f, x, i]" by blast
    with h have m: "matches phone_number_re d = [[]]" using seven_digits[of a b c e f x i] by simp
    from d have ne: "d \<noteq> []" by simp
    from finditer_whole[OF m ne no_empty_match(1)] have fi: "finditer phone_number_re False d = [Hit d]" .
    have "scramble_text fk d (Some [''phone_number'']) g = scramble_loop fk [''phone_number''] d g"
      by (simp only: scramble_text_def option.case)
    also have "\<dots> = replace_pattern fk d phone_number_re ''phone_number'' g"
      by (simp only: scramble_loop_single map_of_phone option.case)
    also have "\<dots> = generate_fake_value fk ''phone_number'' d g"
      by (rule replace_whole[OF fi])
    finally have "scramble_text fk d (Some [''phone_number'']) g
        = catch_generation ''phone_number'' d (phone_number fk g)"
      by (simp add: generate_fake_value_def)
    with m fi show ?thesis by blast
  qed
  have b: "scramble_text (const_faker ''X'' ''Y'' ''Z'' ''W'') ''5551234'' (Some [''phone_number'']) ()
        = (Inr ''X'', (), [])" by code_simp
  from a b show ?thesis by blast
qed

theorem seven_digits_are_a_phone_number_witness:
  "list_all (\<lambda>c. citem_mem c Digit) ''5551234'' \<and> length ''5551234'' = 7
   \<and> finditer phone_number_re False ''5551234'' = [Hit ''5551234'']
   \<and> scramble_text failing_faker ''5551234'' (Some [''phone_number'']) ()
       = (Inr ''5551234'', (), [GenerationError ''phone_number'' (Exception ''phone'')])"
proof -
  have h: "list_all (\<lambda>c. citem_mem c Digit) ''5551234'' \<and> length ''5551234'' = 7" by code_simp
  with seven_digits_are_a_phone_number[of "''5551234''" failing_faker "()"]
  show ?thesis by (simp add: failing_faker_def)
qed

text \<open>
  C9, as amended. Ten digits are matched by the phone_number pattern whatever
  follows them. In a text made of a bare 16-digit number between two stretches
  without digits or \<open>(\<close>, the phone pass finds exactly one span, the first ten
  digits of the number, and keeps everything else. When \<open>generate_fake_value\<close>
  returns \<open>v\<close> for that span, the pass returns the text with \<open>v\<close> in place of the
  ten digits, and with \<open>None\<close> for the pattern names the credit_card, email and
  ip_address passes run over that text, not over the input. The two texts are equal
  exactly when \<open>v\<close> is the ten digits themselves. \<open>4111111111111111\<close> is one such
  text.
\<close>

theorem phone_pass_takes_first_ten_digits:
  "(list_all (\<lambda>c. citem_mem c Digit) d \<and> length d = 10 \<longrightarrow>
      first_match phone_number_re False (d @ rest) = Some rest)
   \<and> finditer phone_number_re False ''4111111111111111'' = Hit ''4111111111'' # map Keep ''111111''
   \<and> (generate_fake_value fk ''phone_number'' ''4111111111'' g = (Inr v, g1, l1) \<longrightarrow>
        replace_pattern fk ''4111111111111111'' phone_number_re ''phone_number'' g
          = (Inr (v @ ''111111''), g1, l1)
      \<and> scramble_text fk ''4111111111111111'' None g
          = (case scramble_text fk (v @ ''111111'') (Some [''credit_card'', ''email'', ''ip_address'']) g1 of
               (res, g2, l2) \<Rightarrow> (res, g2, l1 @ l2)))
   \<and> (list_all no_start pre
       \<and> list_all (\<lambda>c. citem_mem c Digit) d10 \<and> length d10 = 10
       \<and> list_all (\<lambda>c. citem_mem c Digit) d6 \<and> length d6 = 6
       \<and> list_all no_start post
       \<and> generate_fake_value fk ''phone_number'' d10 g = (Inr v, g1, l1) \<longrightarrow>
        finditer phone_number_re False (pre @ d10 @ d6 @ post)
          = map Keep pre @ Hit d10 # map Keep (d6 @ post)
      \<and> replace_pattern fk (pre @ d10 @ d6 @ post) phone_number_re ''phone_number'' g
          = (Inr (pre @ v @ d6 @ post), g1, l1)
      \<and> scramble_text fk (pre @ d10 @ d6 @ post) None g
          = (case scramble_text fk (pre @ v @ d6 @ post)
                    (Some [''credit_card'', ''email'', ''ip_address'']) g1 of
               (res, g2, l2) \<Rightarrow> (res, g2, l1 @ l2))
      \<and> ((pre @ v @ d6 @ post = pre @ d10 @ d6 @ post) = (v = d10)))"
proof -
  have a: "first_match phone_number_re False (d @ rest) = Some rest"
    if h: "list_all (\<lambda>c. citem_mem c Digit) d \<and> length d = 10"
  proof -
    from h ten_list[of d] obtain a b c e f x i j k l where d: "d = [a, b, c, e, f, x, i, j, k, l]" by blast
    with h show ?thesis using ten_digits[of a b c e f x i j k l rest] by simp
  qed
  have c: "replace_pattern fk ''4111111111111111'' phone_number_re ''phone_number'' g
          = (Inr (v @ ''111111''), g1, l1)
      \<and> scramble_text fk ''4111111111111111'' None g
          = (case scramble_text fk (v @ ''111111'') (Some [''credit_card'', ''email'', ''ip_address'']) g1 of
               (res, g2, l2) \<Rightarrow> (res, g2, l1 @ l2))"
    if h: "generate_fake_value fk ''phone_number'' ''4111111111'' g = (Inr v, g1, l1)"
  proof -
    have s: "subst (generate_fake_value fk ''phone_number'') (map Keep ''111111'') g1 = (Inr ''111111'', g1, [])"
      by (rule subst_keep)
    from h s have r: "replace_pattern fk ''4111111111111111'' phone_number_re ''phone_number'' g
          = (Inr (v @ ''111111''), g1, l1)"
      by (simp add: replace_pattern_def re_sub_def card_scan del: subst.simps(2))
    then have "scramble_text fk ''4111111111111111'' None g
          = (case scramble_text fk (v @ ''111111'') (Some [''credit_card'', ''email'', ''ip_address'']) g1 of
               (res, g2, l2) \<Rightarrow> (res, g2, l1 @ l2))"
      by (simp add: scramble_text_def patterns_def)
    with r show ?thesis by blast
  qed
  have e: "finditer phone_number_re False (pre @ d10 @ d6 @ post)
          = map Keep pre @ Hit d10 # map Keep (d6 @ post)
      \<and> replace_pattern fk (pre @ d10 @ d6 @ post) phone_number_re ''phone_number'' g
          = (Inr (pre @ v @ d6 @ post), g1, l1)
      \<and> scramble_text fk (pre @ d10 @ d6 @ post) None g
          = (case scramble_text fk (pre @ v @ d6 @ post)
                    (Some [''credit_card'', ''email'', ''ip_address'']) g1 of
               (res, g2, l2) \<Rightarrow> (res, g2, l1 @ l2))
      \<and> ((pre @ v @ d6 @ post = pre @ d10 @ d6 @ post) = (v = d10))"
    if h: "list_all no_start pre
       \<and> list_all (\<lambda>c. citem_mem c Digit) d10 \<and> length d10 = 10
       \<and> list_all (\<lambda>c. citem_mem c Digit) d6 \<and> length d6 = 6
       \<and> list_all no_start post
       \<and> generate_fake_value fk ''phone_number'' d10 g = (Inr v, g1, l1)"
  proof -
    from h have p: "list_all no_start pre" and t1: "list_all (\<lambda>c. citem_mem c Digit) d10"
      and t2: "length d10 = 10" and s1: "list_all (\<lambda>c. citem_mem c Digit) d6"
      and s2: "length d6 = 6" and q: "list_all no_start post"
      and gv: "generate_fake_value fk ''phone_number'' d10 g = (Inr v, g1, l1)" by blast+
    have 1: "finditer phone_number_re False (pre @ d10 @ d6 @ post)
          = map Keep pre @ Hit d10 # map Keep (d6 @ post)"
      by (rule card_number_scan[OF p t1 t2 s1 s2 q])
    have 2: "replace_pattern fk (pre @ d10 @ d6 @ post) phone_number_re ''phone_number'' g
          = (Inr (pre @ v @ d6 @ post), g1, l1)"
      by (rule card_number_pass[OF p t1 t2 s1 s2 q gv])
    obtain res g2 l2 where r: "scramble_loop fk [''credit_card'', ''email'', ''ip_address'']
        (pre @ v @ d6 @ post) g1 = (res, g2, l2)" by (rule prod_cases3)
    have "scramble_loop fk [''phone_number'', ''credit_card'', ''email'', ''ip_address'']
        (pre @ d10 @ d6 @ post) g = (res, g2, l1 @ l2)"
      by (subst scramble_loop.simps) (simp only: map_of_phone option.case 2 prod.case sum.case r)
    with r have 3: "scramble_text fk (pre @ d10 @ d6 @ post) None g
          = (case scramble_text fk (pre @ v @ d6 @ post)
                    (Some [''credit_card'', ''email'', ''ip_address'']) g1 of
               (res, g2, l2) \<Rightarrow> (res, g2, l1 @ l2))"
      by (simp add: scramble_text_def patterns_def del: scramble_loop.simps)
    have 4: "(pre @ v @ d6 @ post = pre @ d10 @ d6 @ post) = (v = d10)" by simp
    from 1 2 3 4 show ?thesis by blast
  qed
  from a card_scan c e show ?thesis by blast
qed

theorem phone_pass_takes_first_ten_digits_witness:
  "list_all (\<lambda>c. citem_mem c Digit) ''4111111111'' \<and> length ''4111111111'' = 10
   \<and> first_match phone_number_re False (''4111111111'' @ ''111111'') = Some ''111111''
   \<and> generate_fake_value (const_faker ''P'' ''C'' ''E'' ''I'') ''phone_number'' ''4111111111'' ()
       = (Inr ''P'', (), [])
   \<and> replace_pattern (const_faker ''P'' ''C'' ''E'' ''I'') ''4111111111111111'' phone_number_re
        ''phone_number'' () = (Inr (''P'' @ ''111111''), (), [])
   \<and> list_all no_start ''card '' \<and> list_all (\<lambda>c. citem_mem c Digit) ''111111''
   \<and> length ''111111'' = 6 \<and> list_all no_start ''.''
   \<and> replace_pattern (const_faker ''P'' ''C'' ''E'' ''I'') (''card '' @ ''4111111111'' @ ''111111'' @ ''.'')
        phone_number_re ''phone_number'' () = (Inr (''card '' @ ''P'' @ ''111111'' @ ''.''), (), [])"
proof -
  have h: "list_all (\<lambda>c. citem_mem c Digit) ''4111111111'' \<and> length ''4111111111'' = 10"
    by code_simp
  have h2: "list_all no_start ''card '' \<and> list_all (\<lambda>c. citem_mem c Digit) ''111111''
   \<and> length ''111111'' = 6 \<and> list_all no_start ''.''"
    by code_simp
  have g: "generate_fake_value (const_faker ''P'' ''C'' ''E'' ''I'') ''phone_number'' ''4111111111'' ()
       = (Inr ''P'', (), [])"
    by (simp add: generate_fake_value_def const_faker_def)
  note t = phone_pass_takes_first_ten_digits[where d = "''4111111111''" and rest = "''111111''"
      and fk = "const_faker ''P'' ''C'' ''E'' ''I''" and g = "()" and v = "''P''" and ?g1.0 = "()"
      and ?l1.0 = "[]" and pre = "''card ''" and ?d10.0 = "''4111111111''" and ?d6.0 = "''111111''"
      and post = "''.''"]
  from t h have 1: "first_match phone_number_re False (''4111111111'' @ ''111111'') = Some ''111111''"
    by blast
  from t g have 2: "replace_pattern (const_faker ''P'' ''C'' ''E'' ''I'') ''4111111111111111'' phone_number_re
        ''phone_number'' () = (Inr (''P'' @ ''111111''), (), [])" by blast
  from t h h2 g have 3: "replace_pattern (const_faker ''P'' ''C'' ''E'' ''I'')
        (''card '' @ ''4111111111'' @ ''111111'' @ ''.'')
        phone_number_re ''phone_number'' () = (Inr (''card '' @ ''P'' @ ''111111'' @ ''.''), (), [])"
    by blast
  from h 1 g 2 h2 3 show ?thesis by blast
qed

text \<open>
  C9, as stated, fails when the value put in place of the ten digits is those ten
  digits again: the provider raised (the span is kept), or it returned them. The
  credit_card pass then reads the whole card number and replaces it.
\<close>

theorem phone_pass_hides_card_counterexample:
  "fst (replace_pattern flaky_faker ''4111111111111111'' phone_number_re ''phone_number'' 0)
      = Inr ''4111111111111111''
   \<and> fst (scramble_text flaky_faker ''4111111111111111'' None 0) = Inr ''C''
   \<and> fst (scramble_text (const_faker ''4111111111'' ''C'' ''E'' ''I'') ''4111111111111111'' None ())
      = Inr ''C''"
  by code_simp

end
